theory Spec2Isabelle
  imports Main "HOL-Library.AList"
begin

section \<open>The adjacency list of bn::network\<close>

text \<open>
  A shallow embedding of \<^verbatim>\<open>bn::adjacency_list\<close>
  (\<^verbatim>\<open>bayesian/network/adjacency_list.hpp\<close>).

  \<^item> \<^verbatim>\<open>node_ptr\<close> and \<^verbatim>\<open>arc_ptr\<close> are shared pointers; they are compared and hashed
    by address, and either may be null. A pointer is modelled by its address.
  \<^item> The two \<^verbatim>\<open>std::list\<close> members are lists, the back of the list being the end.
  \<^item> The two \<^verbatim>\<open>std::unordered_map\<close> members are association lists with one entry
    per key, read in the order the container would iterate. The standard leaves
    that order open; the model keeps entries in insertion order, and nothing
    proved below depends on which entry comes first. Lookup is
    \<^const>\<open>map_of\<close>, \<^verbatim>\<open>operator[]\<close> followed by an assignment is \<^const>\<open>AList.update\<close>
    and \<^verbatim>\<open>erase(key)\<close> is \<^const>\<open>AList.delete\<close>.
  \<^item> An iterator into a list is the position it points to.
  \<^item> Every member function takes the object and returns the object it leaves
    behind together with its result. A function that may throw returns
    \<open>Inl\<close> of the exception or \<open>Inr\<close> of its value.
  \<^item> The allocations that can throw \<^verbatim>\<open>std::bad_alloc\<close> are named by
    \<open>alloc_site\<close>; a function that allocates takes a predicate telling which
    of them fail during the call.
  \<^item> The removals, \<^verbatim>\<open>is_adjacent\<close>, \<^verbatim>\<open>is_connect\<close>, \<^verbatim>\<open>source\<close> and \<^verbatim>\<open>target\<close> are
    \<^verbatim>\<open>noexcept\<close>. A failed allocation while \<^verbatim>\<open>remove_node\<close> copies its backups ends
    the process; the model gives the removals and the queries no failing
    allocation.
\<close>

subsection \<open>Data\<close>

datatype node_ptr = NodeNull | NodePtr nat

datatype arc_ptr = ArcNull | ArcPtr nat

datatype exn = bad_alloc | out_of_range

datatype alloc_site =
    PushNode      \<comment> \<open>\<^verbatim>\<open>stored_node_.push_back\<close>\<close>
  | NewBucket     \<comment> \<open>\<^verbatim>\<open>adjacency_[key]\<close> inserting a key that is absent\<close>
  | PushArc       \<comment> \<open>\<^verbatim>\<open>stored_arc_.push_back\<close>\<close>
  | NewEndpoint   \<comment> \<open>\<^verbatim>\<open>endpoint_dic_[key]\<close> inserting a key that is absent\<close>
  | PushAdjacent  \<comment> \<open>\<^verbatim>\<open>push_back\<close> on an adjacency bucket\<close>

type_synonym endpoint_dictionary_type = "(arc_ptr \<times> (node_ptr \<times> node_ptr)) list"

type_synonym adjacency_type = "(node_ptr \<times> (node_ptr \<times> arc_ptr) list) list"

record adjacency_list =
  stored_node :: "node_ptr list"
  stored_arc :: "arc_ptr list"
  endpoint_dic :: endpoint_dictionary_type
  adjacency :: adjacency_type

definition empty_graph :: adjacency_list where
  "empty_graph = \<lparr>stored_node = [], stored_arc = [], endpoint_dic = [], adjacency = []\<rparr>"

definition no_fault :: "alloc_site \<Rightarrow> bool" where
  "no_fault = (\<lambda>_. False)"

subsection \<open>Iterators\<close>

text \<open>\<^verbatim>\<open>std::find(xs.cbegin(), xs.cend(), x)\<close>: the first position holding \<open>x\<close>.\<close>

fun find_pos :: "'a \<Rightarrow> 'a list \<Rightarrow> nat option" where
  "find_pos x [] = None"
| "find_pos x (y # ys) = (if y = x then Some 0 else map_option Suc (find_pos x ys))"

text \<open>
  \<^verbatim>\<open>it = std::find(xs.crbegin(), xs.crend(), x)\<close> followed by \<^verbatim>\<open>(++it).base()\<close>:
  the search runs from the back, and the forward iterator obtained from a hit
  after \<open>i\<close> steps points to position \<open>length xs - 1 - i\<close>.
\<close>

definition rfind_pos :: "'a \<Rightarrow> 'a list \<Rightarrow> nat option" where
  "rfind_pos x xs = map_option (\<lambda>i. length xs - 1 - i) (find_pos x (rev xs))"

text \<open>\<^verbatim>\<open>xs.erase(it)\<close> for a list.\<close>

definition erase_at :: "nat \<Rightarrow> 'a list \<Rightarrow> 'a list" where
  "erase_at i xs = take i xs @ drop (Suc i) xs"

subsection \<open>Registering\<close>

definition add_node ::
  "(alloc_site \<Rightarrow> bool) \<Rightarrow> adjacency_list \<Rightarrow> node_ptr \<Rightarrow> (exn + node_ptr) \<times> adjacency_list" where
  "add_node oom g node =
     (if oom PushNode then (Inl bad_alloc, g)
      else
        let g1 = g\<lparr>stored_node := stored_node g @ [node]\<rparr> in
        if map_of (adjacency g1) node = None \<and> oom NewBucket
        then (Inl bad_alloc, g1\<lparr>stored_node := butlast (stored_node g1)\<rparr>)
        else (Inr node, g1\<lparr>adjacency := AList.update node [] (adjacency g1)\<rparr>))"

text \<open>
  \<^verbatim>\<open>adjacency_[from].push_back(arc_pair)\<close>: the bucket is created when it is
  absent, then the pair is appended. The second component is the index as the
  expression leaves it, also when it throws.
\<close>

definition bucket_push_back ::
  "(alloc_site \<Rightarrow> bool) \<Rightarrow> adjacency_type \<Rightarrow> node_ptr \<Rightarrow> node_ptr \<times> arc_ptr
     \<Rightarrow> (exn + unit) \<times> adjacency_type" where
  "bucket_push_back oom adj from arc_pair =
     (case map_of adj from of
        None \<Rightarrow>
          if oom NewBucket then (Inl bad_alloc, adj)
          else if oom PushAdjacent then (Inl bad_alloc, AList.update from [] adj)
          else (Inr (), AList.update from [arc_pair] adj)
      | Some bucket \<Rightarrow>
          if oom PushAdjacent then (Inl bad_alloc, adj)
          else (Inr (), AList.update from (bucket @ [arc_pair]) adj))"

definition add_arc ::
  "(alloc_site \<Rightarrow> bool) \<Rightarrow> adjacency_list \<Rightarrow> arc_ptr \<Rightarrow> node_ptr \<Rightarrow> node_ptr
     \<Rightarrow> (exn + arc_ptr) \<times> adjacency_list" where
  "add_arc oom g arc from to =
     (let node_pair = (from, to); arc_pair = (to, arc) in
      if oom PushArc then (Inl bad_alloc, g)
      else
        let g1 = g\<lparr>stored_arc := stored_arc g @ [arc]\<rparr> in
        if map_of (endpoint_dic g1) arc = None \<and> oom NewEndpoint
        then (Inl bad_alloc, g1\<lparr>stored_arc := butlast (stored_arc g1)\<rparr>)
        else
          let g2 = g1\<lparr>endpoint_dic := AList.update arc node_pair (endpoint_dic g1)\<rparr> in
          (case bucket_push_back oom (adjacency g2) from arc_pair of
             (Inl e, adj) \<Rightarrow>
               (let g3 = g2\<lparr>adjacency := adj\<rparr>;
                    g4 = g3\<lparr>endpoint_dic := AList.delete arc (endpoint_dic g3)\<rparr>
                in (Inl e, g4\<lparr>stored_arc := butlast (stored_arc g4)\<rparr>))
           | (Inr _, adj) \<Rightarrow> (Inr arc, g2\<lparr>adjacency := adj\<rparr>)))"

subsection \<open>Removing\<close>

text \<open>The three erasures of the private \<^verbatim>\<open>remove_arc(arc, from, to)\<close>.\<close>

definition erase_adjacency_entry ::
  "node_ptr \<Rightarrow> (node_ptr \<times> arc_ptr) list \<Rightarrow> nat \<Rightarrow> adjacency_list \<Rightarrow> adjacency_list" where
  "erase_adjacency_entry from bucket adjacency_it g =
     g\<lparr>adjacency := AList.update from (erase_at adjacency_it bucket) (adjacency g)\<rparr>"

definition erase_endpoint :: "arc_ptr \<Rightarrow> adjacency_list \<Rightarrow> adjacency_list" where
  "erase_endpoint arc g = g\<lparr>endpoint_dic := AList.delete arc (endpoint_dic g)\<rparr>"

definition erase_stored_arc :: "nat \<Rightarrow> adjacency_list \<Rightarrow> adjacency_list" where
  "erase_stored_arc arc_it g = g\<lparr>stored_arc := erase_at arc_it (stored_arc g)\<rparr>"

definition remove_arc_private ::
  "adjacency_list \<Rightarrow> arc_ptr \<Rightarrow> node_ptr \<Rightarrow> node_ptr \<Rightarrow> bool \<times> adjacency_list" where
  "remove_arc_private g arc from to =
     (case rfind_pos arc (stored_arc g) of
        None \<Rightarrow> (False, g)
      | Some arc_it \<Rightarrow>
          (case map_of (adjacency g) from of
             None \<Rightarrow> (False, g)
           | Some bucket \<Rightarrow>
               (case find_pos (to, arc) bucket of
                  None \<Rightarrow> (False, g)
                | Some adjacency_it \<Rightarrow>
                    (True,
                     erase_stored_arc arc_it
                       (erase_endpoint arc
                          (erase_adjacency_entry from bucket adjacency_it g))))))"

text \<open>
  The states the object is in after each of the three erasing statements of the
  private \<^verbatim>\<open>remove_arc\<close>, in the order of the statements; none when a lookup
  fails, since no statement before the erasures changes the object.
\<close>

definition remove_arc_private_states ::
  "adjacency_list \<Rightarrow> arc_ptr \<Rightarrow> node_ptr \<Rightarrow> node_ptr \<Rightarrow> adjacency_list list" where
  "remove_arc_private_states g arc from to =
     (case rfind_pos arc (stored_arc g) of
        None \<Rightarrow> []
      | Some arc_it \<Rightarrow>
          (case map_of (adjacency g) from of
             None \<Rightarrow> []
           | Some bucket \<Rightarrow>
               (case find_pos (to, arc) bucket of
                  None \<Rightarrow> []
                | Some adjacency_it \<Rightarrow>
                    (let g1 = erase_adjacency_entry from bucket adjacency_it g;
                         g2 = erase_endpoint arc g1;
                         g3 = erase_stored_arc arc_it g2
                     in [g1, g2, g3]))))"

text \<open>\<^verbatim>\<open>remove_arc(arc)\<close>.\<close>

definition remove_arc :: "adjacency_list \<Rightarrow> arc_ptr \<Rightarrow> bool \<times> adjacency_list" where
  "remove_arc g arc =
     (case map_of (endpoint_dic g) arc of
        None \<Rightarrow> (False, g)
      | Some (from, to) \<Rightarrow> remove_arc_private g arc from to)"

text \<open>
  \<^verbatim>\<open>remove_arc(from, to)\<close>. When several entries have these endpoints, the one
  that \<^verbatim>\<open>std::find_if\<close> meets first depends on the iteration order of the container;
  here it is the one inserted first, in the container it may be another.
\<close>

definition remove_arc_from_to ::
  "adjacency_list \<Rightarrow> node_ptr \<Rightarrow> node_ptr \<Rightarrow> bool \<times> adjacency_list" where
  "remove_arc_from_to g from to =
     (case find (\<lambda>elem. fst (snd elem) = from \<and> snd (snd elem) = to) (endpoint_dic g) of
        None \<Rightarrow> (False, g)
      | Some endpoint_it \<Rightarrow> remove_arc_private g (fst endpoint_it) from to)"

text \<open>
  The loop of \<^verbatim>\<open>remove_node\<close> over the copy of the arc list. The result is
  \<^verbatim>\<open>is_error\<close> and the object as the loop leaves it.
\<close>

fun delete_arcs :: "node_ptr \<Rightarrow> arc_ptr list \<Rightarrow> adjacency_list \<Rightarrow> bool \<times> adjacency_list" where
  "delete_arcs node [] g = (False, g)"
| "delete_arcs node (arc # arcs) g =
     (case map_of (endpoint_dic g) arc of
        None \<Rightarrow> (True, g)
      | Some (from, to) \<Rightarrow>
          if from = node \<or> to = node then
            (case remove_arc g arc of
               (False, g') \<Rightarrow> (True, g')
             | (True, g') \<Rightarrow> delete_arcs node arcs g')
          else delete_arcs node arcs g)"

definition remove_node :: "adjacency_list \<Rightarrow> node_ptr \<Rightarrow> bool \<times> adjacency_list" where
  "remove_node g node =
     (case rfind_pos node (stored_node g) of
        None \<Rightarrow> (False, g)
      | Some it \<Rightarrow>
          (let backup_stored_arc = stored_arc g;
               backup_endpoint_dic = endpoint_dic g;
               backup_adjacency = adjacency g
           in (case delete_arcs node backup_stored_arc g of
                 (True, g1) \<Rightarrow>
                   (False, g1\<lparr>stored_arc := backup_stored_arc,
                               endpoint_dic := backup_endpoint_dic,
                               adjacency := backup_adjacency\<rparr>)
               | (False, g1) \<Rightarrow>
                   (let g2 = g1\<lparr>adjacency := AList.delete node (adjacency g1)\<rparr>
                    in (True, g2\<lparr>stored_node := erase_at it (stored_node g2)\<rparr>)))))"

subsection \<open>Queries\<close>

text \<open>
  \<^verbatim>\<open>is_adjacent\<close> and \<^verbatim>\<open>parent_nodes\<close> read the endpoint index in its iteration order
  as well: which of several arcs between two nodes \<^verbatim>\<open>is_adjacent\<close> returns, and the
  order of the nodes that \<^verbatim>\<open>parent_nodes\<close> returns, may differ in the container.
\<close>

definition is_adjacent :: "adjacency_list \<Rightarrow> node_ptr \<Rightarrow> node_ptr \<Rightarrow> arc_ptr" where
  "is_adjacent g from to =
     (case find (\<lambda>elem. fst (snd elem) = from \<and> snd (snd elem) = to) (endpoint_dic g) of
        None \<Rightarrow> ArcNull
      | Some endpoint_it \<Rightarrow> fst endpoint_it)"

definition is_connect :: "adjacency_list \<Rightarrow> node_ptr \<Rightarrow> arc_ptr \<Rightarrow> int" where
  "is_connect g node arc =
     (case map_of (endpoint_dic g) arc of
        None \<Rightarrow> 0
      | Some endpoint \<Rightarrow>
          if fst endpoint = node then 1
          else if snd endpoint = node then - 1
          else 0)"

definition source :: "adjacency_list \<Rightarrow> arc_ptr \<Rightarrow> node_ptr" where
  "source g arc = (case map_of (endpoint_dic g) arc of None \<Rightarrow> NodeNull | Some endpoint \<Rightarrow> fst endpoint)"

definition target :: "adjacency_list \<Rightarrow> arc_ptr \<Rightarrow> node_ptr" where
  "target g arc = (case map_of (endpoint_dic g) arc of None \<Rightarrow> NodeNull | Some endpoint \<Rightarrow> snd endpoint)"

definition parent_nodes :: "adjacency_list \<Rightarrow> node_ptr \<Rightarrow> node_ptr list" where
  "parent_nodes g child = map (\<lambda>endpoint. fst (snd endpoint)) (filter (\<lambda>endpoint. snd (snd endpoint) = child) (endpoint_dic g))"

text \<open>\<^verbatim>\<open>adjacency_.at(parent)\<close> throws \<^verbatim>\<open>std::out_of_range\<close> when the key is absent.\<close>

definition child_nodes :: "adjacency_list \<Rightarrow> node_ptr \<Rightarrow> exn + node_ptr list" where
  "child_nodes g parent =
     (case map_of (adjacency g) parent of
        None \<Rightarrow> Inl out_of_range
      | Some bucket \<Rightarrow> Inr (map fst bucket))"

definition all_node :: "adjacency_list \<Rightarrow> node_ptr list" where
  "all_node g = stored_node g"

definition all_arc :: "adjacency_list \<Rightarrow> arc_ptr list" where
  "all_arc g = stored_arc g"

subsection \<open>Sequences of calls\<close>

datatype operation =
    AddNode node_ptr
  | AddArc arc_ptr node_ptr node_ptr
  | RemoveNode node_ptr
  | RemoveArc arc_ptr
  | RemoveArcFromTo node_ptr node_ptr

text \<open>
  One call with every allocation succeeding. The flag tells whether the call
  succeeded: a registration that returned, a removal that returned \<^verbatim>\<open>true\<close>.
\<close>

fun exec :: "operation \<Rightarrow> adjacency_list \<Rightarrow> bool \<times> adjacency_list" where
  "exec (AddNode node) g =
     (case add_node no_fault g node of (Inl e, g') \<Rightarrow> (False, g') | (Inr v, g') \<Rightarrow> (True, g'))"
| "exec (AddArc arc from to) g =
     (case add_arc no_fault g arc from to of (Inl e, g') \<Rightarrow> (False, g') | (Inr v, g') \<Rightarrow> (True, g'))"
| "exec (RemoveNode node) g = remove_node g node"
| "exec (RemoveArc arc) g = remove_arc g arc"
| "exec (RemoveArcFromTo from to) g = remove_arc_from_to g from to"

text \<open>A sequence of calls, each of which succeeds; \<open>None\<close> when one does not.\<close>

fun run :: "operation list \<Rightarrow> adjacency_list \<Rightarrow> adjacency_list option" where
  "run [] g = Some g"
| "run (c # cs) g = (case exec c g of (True, g') \<Rightarrow> run cs g' | (False, g') \<Rightarrow> None)"

text \<open>A sequence of calls each of which meets a condition on the state it is made in.\<close>

fun follows ::
  "(adjacency_list \<Rightarrow> operation \<Rightarrow> bool) \<Rightarrow> operation list \<Rightarrow> adjacency_list \<Rightarrow> bool" where
  "follows ok [] g = True"
| "follows ok (c # cs) g = (ok g c \<and> follows ok cs (snd (exec c g)))"

text \<open>
  The calls of a caller who registers no node that is the source of a registered
  arc and no arc that is in the arc list.
\<close>

fun admissible :: "adjacency_list \<Rightarrow> operation \<Rightarrow> bool" where
  "admissible g (AddNode node) = (\<forall>arc \<in> set (all_arc g). source g arc \<noteq> node)"
| "admissible g (AddArc arc from to) = (arc \<notin> set (all_arc g))"
| "admissible g (RemoveNode node) = True"
| "admissible g (RemoveArc arc) = True"
| "admissible g (RemoveArcFromTo from to) = True"

text \<open>
  The calls of a caller who registers no arc that is in the arc list and gives
  \<^verbatim>\<open>add_arc\<close> no null node.
\<close>

fun fresh_nonnull :: "adjacency_list \<Rightarrow> operation \<Rightarrow> bool" where
  "fresh_nonnull g (AddArc arc from to) =
     (arc \<notin> set (all_arc g) \<and> from \<noteq> NodeNull \<and> to \<noteq> NodeNull)"
| "fresh_nonnull g (AddNode node) = True"
| "fresh_nonnull g (RemoveNode node) = True"
| "fresh_nonnull g (RemoveArc arc) = True"
| "fresh_nonnull g (RemoveArcFromTo from to) = True"

subsection \<open>Consistency of the four members\<close>

text \<open>The nodes whose adjacency bucket holds an entry for the arc.\<close>

definition buckets_of :: "adjacency_list \<Rightarrow> arc_ptr \<Rightarrow> node_ptr list" where
  "buckets_of g arc = map fst (filter (\<lambda>kv. arc \<in> snd ` set (snd kv)) (adjacency g))"

text \<open>
  The first invariant of the data model, for one arc: the arc is in the arc list
  iff it has an endpoint entry, iff exactly one bucket holds it, the bucket of its
  source.
\<close>

definition endpoint_consistent :: "adjacency_list \<Rightarrow> arc_ptr \<Rightarrow> bool" where
  "endpoint_consistent g arc \<longleftrightarrow>
     (arc \<in> set (stored_arc g) \<longleftrightarrow> map_of (endpoint_dic g) arc \<noteq> None) \<and>
     (case map_of (endpoint_dic g) arc of
        None \<Rightarrow> length (buckets_of g arc) \<noteq> 1
      | Some endpoint \<Rightarrow> buckets_of g arc = [fst endpoint])"

text \<open>The arcs whose indexed source or target is the node.\<close>

definition incident_arcs :: "adjacency_list \<Rightarrow> node_ptr \<Rightarrow> arc_ptr list" where
  "incident_arcs g node =
     map fst (filter (\<lambda>elem. fst (snd elem) = node \<or> snd (snd elem) = node) (endpoint_dic g))"

text \<open>
  The arc list and the endpoint index agree: no arc is listed twice, the index
  has one entry per key, and its keys are the listed arcs.
\<close>

definition arcs_indexed :: "adjacency_list \<Rightarrow> bool" where
  "arcs_indexed g \<longleftrightarrow>
     distinct (stored_arc g) \<and>
     distinct (map fst (endpoint_dic g)) \<and>
     set (map fst (endpoint_dic g)) = set (stored_arc g)"

text \<open>
  The arc list and the two maps agree: in addition the adjacency index has one
  entry per key, every endpoint entry has its pair in the bucket of its source,
  no bucket holds a pair twice, and every pair in a bucket has its endpoint
  entry.
\<close>

definition well_formed :: "adjacency_list \<Rightarrow> bool" where
  "well_formed g \<longleftrightarrow>
     arcs_indexed g \<and>
     distinct (map fst (adjacency g)) \<and>
     (\<forall>elem \<in> set (endpoint_dic g).
        \<exists>bucket. map_of (adjacency g) (fst (snd elem)) = Some bucket \<and>
                 (snd (snd elem), fst elem) \<in> set bucket) \<and>
     (\<forall>kv \<in> set (adjacency g).
        distinct (snd kv) \<and>
        (\<forall>adjacent \<in> set (snd kv).
           map_of (endpoint_dic g) (snd adjacent) = Some (fst kv, fst adjacent)))"

text \<open>No endpoint entry holds a null node.\<close>

definition endpoints_nonnull :: "adjacency_list \<Rightarrow> bool" where
  "endpoints_nonnull g \<longleftrightarrow>
     (\<forall>elem \<in> set (endpoint_dic g). fst (snd elem) \<noteq> NodeNull \<and> snd (snd elem) \<noteq> NodeNull)"

text \<open>The conditions of \<open>well_formed\<close> on the arc list and on the maps as partial functions.\<close>

definition consistent_maps ::
  "arc_ptr list \<Rightarrow> (arc_ptr \<rightharpoonup> node_ptr \<times> node_ptr)
     \<Rightarrow> (node_ptr \<rightharpoonup> (node_ptr \<times> arc_ptr) list) \<Rightarrow> bool" where
  "consistent_maps as E A \<longleftrightarrow>
     distinct as \<and> dom E = set as \<and>
     (\<forall>a f t. E a = Some (f, t) \<longrightarrow> (\<exists>b. A f = Some b \<and> (t, a) \<in> set b)) \<and>
     (\<forall>n b. A n = Some b \<longrightarrow> distinct b \<and> (\<forall>t a. (t, a) \<in> set b \<longrightarrow> E a = Some (n, t)))"

subsection \<open>Example states\<close>

text \<open>One registered node with one arc leaving it.\<close>

definition one_arc_graph :: adjacency_list where
  "one_arc_graph =
     \<lparr>stored_node = [NodePtr 1], stored_arc = [ArcPtr 1],
      endpoint_dic = [(ArcPtr 1, NodePtr 1, NodePtr 2)],
      adjacency = [(NodePtr 1, [(NodePtr 2, ArcPtr 1)])]\<rparr>"

text \<open>One registered node with two arcs leaving it.\<close>

definition two_arc_graph :: adjacency_list where
  "two_arc_graph =
     \<lparr>stored_node = [NodePtr 1], stored_arc = [ArcPtr 1, ArcPtr 2],
      endpoint_dic = [(ArcPtr 1, NodePtr 1, NodePtr 2), (ArcPtr 2, NodePtr 1, NodePtr 3)],
      adjacency = [(NodePtr 1, [(NodePtr 2, ArcPtr 1), (NodePtr 3, ArcPtr 2)])]\<rparr>"

text \<open>
  A node and an arc that are each listed twice; the arcs leave a node that has a
  bucket without being registered.
\<close>

definition duplicate_node_graph :: adjacency_list where
  "duplicate_node_graph =
     \<lparr>stored_node = [NodePtr 1, NodePtr 2, NodePtr 1], stored_arc = [ArcPtr 1, ArcPtr 2, ArcPtr 1],
      endpoint_dic = [(ArcPtr 1, NodePtr 3, NodePtr 4), (ArcPtr 2, NodePtr 3, NodePtr 4)],
      adjacency = [(NodePtr 1, []), (NodePtr 2, []),
                   (NodePtr 3, [(NodePtr 4, ArcPtr 1), (NodePtr 4, ArcPtr 2), (NodePtr 4, ArcPtr 1)])]\<rparr>"

text \<open>Node 1 registered again after an arc was added from it.\<close>

definition reregistered_node_graph :: adjacency_list where
  "reregistered_node_graph =
     \<lparr>stored_node = [NodePtr 1, NodePtr 1], stored_arc = [ArcPtr 1],
      endpoint_dic = [(ArcPtr 1, NodePtr 1, NodePtr 2)],
      adjacency = [(NodePtr 1, [])]\<rparr>"

text \<open>An arc added from a node that was never registered.\<close>

definition unregistered_source_graph :: adjacency_list where
  "unregistered_source_graph =
     \<lparr>stored_node = [], stored_arc = [ArcPtr 1],
      endpoint_dic = [(ArcPtr 1, NodePtr 1, NodePtr 2)],
      adjacency = [(NodePtr 1, [(NodePtr 2, ArcPtr 1)])]\<rparr>"

text \<open>One registered node, no arc.\<close>

definition one_node_graph :: adjacency_list where
  "one_node_graph =
     \<lparr>stored_node = [NodePtr 1], stored_arc = [], endpoint_dic = [],
      adjacency = [(NodePtr 1, [])]\<rparr>"

text \<open>The same arc registered twice from node 1.\<close>

definition duplicate_arc_graph :: adjacency_list where
  "duplicate_arc_graph =
     \<lparr>stored_node = [NodePtr 1], stored_arc = [ArcPtr 1, ArcPtr 1],
      endpoint_dic = [(ArcPtr 1, NodePtr 1, NodePtr 2)],
      adjacency = [(NodePtr 1, [(NodePtr 2, ArcPtr 1), (NodePtr 2, ArcPtr 1)])]\<rparr>"

text \<open>One registered node with an arc to itself.\<close>

definition self_loop_graph :: adjacency_list where
  "self_loop_graph =
     \<lparr>stored_node = [NodePtr 1], stored_arc = [ArcPtr 1],
      endpoint_dic = [(ArcPtr 1, NodePtr 1, NodePtr 1)],
      adjacency = [(NodePtr 1, [(NodePtr 1, ArcPtr 1)])]\<rparr>"

text \<open>Three registered nodes in a chain of two arcs.\<close>

definition chain_graph :: adjacency_list where
  "chain_graph =
     \<lparr>stored_node = [NodePtr 1, NodePtr 2, NodePtr 3], stored_arc = [ArcPtr 1, ArcPtr 2],
      endpoint_dic = [(ArcPtr 1, NodePtr 1, NodePtr 2), (ArcPtr 2, NodePtr 2, NodePtr 3)],
      adjacency = [(NodePtr 1, [(NodePtr 2, ArcPtr 1)]), (NodePtr 2, [(NodePtr 3, ArcPtr 2)]),
                   (NodePtr 3, [])]\<rparr>"

text \<open>Two registered nodes, two parallel arcs from node 1 to node 2, one arc back.\<close>

definition parallel_arc_graph :: adjacency_list where
  "parallel_arc_graph =
     \<lparr>stored_node = [NodePtr 1, NodePtr 2],
      stored_arc = [ArcPtr 1, ArcPtr 2, ArcPtr 3],
      endpoint_dic = [(ArcPtr 1, NodePtr 1, NodePtr 2), (ArcPtr 2, NodePtr 1, NodePtr 2),
                      (ArcPtr 3, NodePtr 2, NodePtr 1)],
      adjacency = [(NodePtr 1, [(NodePtr 2, ArcPtr 1), (NodePtr 2, ArcPtr 2)]),
                   (NodePtr 2, [(NodePtr 1, ArcPtr 3)])]\<rparr>"

section \<open>Properties\<close>

subsection \<open>Iterators\<close>

lemma find_pos_None: "find_pos x xs = None \<longleftrightarrow> x \<notin> set xs"
  by (induction xs) auto

lemma find_pos_split:
  "find_pos x xs = Some i \<Longrightarrow> \<exists>pre post. xs = pre @ x # post \<and> x \<notin> set pre \<and> i = length pre"
proof (induction xs arbitrary: i)
  case Nil
  then show ?case by simp
next
  case (Cons y ys)
  show ?case
  proof (cases "y = x")
    case True
    with Cons.prems have "i = 0" by simp
    with True have "y # ys = [] @ x # ys \<and> x \<notin> set [] \<and> i = length ([]::'a list)" by simp
    then show ?thesis by blast
  next
    case False
    with Cons.prems obtain j where j: "find_pos x ys = Some j" "i = Suc j" by auto
    from Cons.IH [OF j(1)] obtain pre post
      where "ys = pre @ x # post" "x \<notin> set pre" "j = length pre" by blast
    with False j(2) have "y # ys = (y # pre) @ x # post \<and> x \<notin> set (y # pre) \<and> i = length (y # pre)"
      by simp
    then show ?thesis by blast
  qed
qed

lemma erase_at_middle: "erase_at (length pre) (pre @ x # post) = pre @ post"
  by (simp add: erase_at_def)

lemma find_pos_erase: "find_pos x xs = Some i \<Longrightarrow> erase_at i xs = remove1 x xs"
  by (auto dest!: find_pos_split simp: erase_at_middle remove1_append)

lemma rfind_pos_None: "rfind_pos x xs = None \<longleftrightarrow> x \<notin> set xs"
  by (simp add: rfind_pos_def find_pos_None)

lemma rfind_pos_split:
  assumes "rfind_pos x xs = Some i"
  shows "\<exists>pre post. xs = pre @ x # post \<and> x \<notin> set post \<and> i = length pre"
proof -
  from assms obtain j where j: "find_pos x (rev xs) = Some j" "i = length xs - 1 - j"
    by (auto simp: rfind_pos_def)
  from find_pos_split [OF j(1)] obtain p q
    where pq: "rev xs = p @ x # q" "x \<notin> set p" "j = length p" by blast
  from pq(1) have "rev (rev xs) = rev (p @ x # q)" by simp
  then have xs: "xs = rev q @ x # rev p" by simp
  then have "length xs = length q + 1 + length p" by simp
  with j(2) pq(3) have "i = length (rev q)" by simp
  with xs pq(2) have "xs = rev q @ x # rev p \<and> x \<notin> set (rev p) \<and> i = length (rev q)" by simp
  then show ?thesis by blast
qed

lemma rfind_pos_Some_ex: "x \<in> set xs \<Longrightarrow> \<exists>i. rfind_pos x xs = Some i"
  using rfind_pos_None [of x xs] by (cases "rfind_pos x xs") auto

lemma find_pos_Some_ex: "x \<in> set xs \<Longrightarrow> \<exists>i. find_pos x xs = Some i"
  using find_pos_None [of x xs] by (cases "find_pos x xs") auto

lemma rfind_pos_erase_distinct:
  "distinct xs \<Longrightarrow> rfind_pos x xs = Some i \<Longrightarrow> erase_at i xs = remove1 x xs"
  by (auto dest!: rfind_pos_split simp: erase_at_middle remove1_append)

lemma rfind_pos_erase: "rfind_pos x xs = Some i \<Longrightarrow> erase_at i xs = rev (remove1 x (rev xs))"
  by (auto dest!: rfind_pos_split simp: erase_at_middle remove1_append)

subsection \<open>The private removal\<close>

lemma remove_arc_private_fail:
  assumes "\<not> (arc \<in> set (stored_arc g) \<and>
        (\<exists>bucket. map_of (adjacency g) from = Some bucket \<and> (to, arc) \<in> set bucket))"
  shows "remove_arc_private g arc from to = (False, g)"
proof (cases "rfind_pos arc (stored_arc g)")
  case None
  then show ?thesis by (simp add: remove_arc_private_def)
next
  case (Some arc_it)
  then have in_arcs: "arc \<in> set (stored_arc g)"
    using rfind_pos_None [of arc "stored_arc g"] by auto
  show ?thesis
  proof (cases "map_of (adjacency g) from")
    case None
    with Some show ?thesis by (simp add: remove_arc_private_def)
  next
    case (Some bucket)
    with assms in_arcs have "(to, arc) \<notin> set bucket" by simp
    then have "find_pos (to, arc) bucket = None" by (simp add: find_pos_None)
    with Some \<open>rfind_pos arc (stored_arc g) = Some arc_it\<close> show ?thesis
      by (simp add: remove_arc_private_def)
  qed
qed

lemma remove_arc_private_success:
  assumes "arc \<in> set (stored_arc g)" and "map_of (adjacency g) from = Some bucket"
    and "(to, arc) \<in> set bucket"
  shows "\<exists>arc_it adjacency_it.
     rfind_pos arc (stored_arc g) = Some arc_it \<and>
     find_pos (to, arc) bucket = Some adjacency_it \<and>
     remove_arc_private g arc from to =
       (True, erase_stored_arc arc_it
                (erase_endpoint arc (erase_adjacency_entry from bucket adjacency_it g)))"
proof -
  from assms(1) obtain arc_it where 1: "rfind_pos arc (stored_arc g) = Some arc_it"
    using rfind_pos_Some_ex by fastforce
  from assms(3) obtain adjacency_it where 2: "find_pos (to, arc) bucket = Some adjacency_it"
    using find_pos_Some_ex by fastforce
  have "remove_arc_private g arc from to =
       (True, erase_stored_arc arc_it
                (erase_endpoint arc (erase_adjacency_entry from bucket adjacency_it g)))"
    unfolding remove_arc_private_def using 1 2 assms(2) by simp
  with 1 2 show ?thesis by blast
qed

lemma remove_arc_private_states_fail:
  assumes "\<not> (arc \<in> set (stored_arc g) \<and>
        (\<exists>bucket. map_of (adjacency g) from = Some bucket \<and> (to, arc) \<in> set bucket))"
  shows "remove_arc_private_states g arc from to = []"
proof (cases "rfind_pos arc (stored_arc g)")
  case None
  then show ?thesis by (simp add: remove_arc_private_states_def)
next
  case (Some arc_it)
  then have in_arcs: "arc \<in> set (stored_arc g)"
    using rfind_pos_None [of arc "stored_arc g"] by auto
  show ?thesis
  proof (cases "map_of (adjacency g) from")
    case None
    with Some show ?thesis by (simp add: remove_arc_private_states_def)
  next
    case (Some bucket)
    with assms in_arcs have "(to, arc) \<notin> set bucket" by simp
    then have "find_pos (to, arc) bucket = None" by (simp add: find_pos_None)
    with Some \<open>rfind_pos arc (stored_arc g) = Some arc_it\<close> show ?thesis
      by (simp add: remove_arc_private_states_def)
  qed
qed

lemma remove_arc_private_effect:
  assumes a: "arc \<in> set (stored_arc g)" and b: "map_of (adjacency g) from = Some bucket"
    and p: "(to, arc) \<in> set bucket"
  shows "remove_arc_private_states g arc from to =
      [g\<lparr>adjacency := AList.update from (remove1 (to, arc) bucket) (adjacency g)\<rparr>,
       g\<lparr>adjacency := AList.update from (remove1 (to, arc) bucket) (adjacency g),
         endpoint_dic := filter (\<lambda>elem. fst elem \<noteq> arc) (endpoint_dic g)\<rparr>,
       g\<lparr>adjacency := AList.update from (remove1 (to, arc) bucket) (adjacency g),
         endpoint_dic := filter (\<lambda>elem. fst elem \<noteq> arc) (endpoint_dic g),
         stored_arc := rev (remove1 arc (rev (stored_arc g)))\<rparr>]"
    and "remove_arc_private g arc from to =
      (True,
       g\<lparr>adjacency := AList.update from (remove1 (to, arc) bucket) (adjacency g),
         endpoint_dic := filter (\<lambda>elem. fst elem \<noteq> arc) (endpoint_dic g),
         stored_arc := rev (remove1 arc (rev (stored_arc g)))\<rparr>)"
proof -
  from a obtain arc_it where 1: "rfind_pos arc (stored_arc g) = Some arc_it"
    using rfind_pos_Some_ex by fastforce
  from p obtain adjacency_it where 2: "find_pos (to, arc) bucket = Some adjacency_it"
    using find_pos_Some_ex by fastforce
  have d: "AList.delete arc (endpoint_dic g) = filter (\<lambda>elem. fst elem \<noteq> arc) (endpoint_dic g)"
    by (induction "endpoint_dic g") (auto simp: AList.delete_eq intro: filter_cong)
  note e = rfind_pos_erase [OF 1] find_pos_erase [OF 2]
  show "remove_arc_private_states g arc from to =
      [g\<lparr>adjacency := AList.update from (remove1 (to, arc) bucket) (adjacency g)\<rparr>,
       g\<lparr>adjacency := AList.update from (remove1 (to, arc) bucket) (adjacency g),
         endpoint_dic := filter (\<lambda>elem. fst elem \<noteq> arc) (endpoint_dic g)\<rparr>,
       g\<lparr>adjacency := AList.update from (remove1 (to, arc) bucket) (adjacency g),
         endpoint_dic := filter (\<lambda>elem. fst elem \<noteq> arc) (endpoint_dic g),
         stored_arc := rev (remove1 arc (rev (stored_arc g)))\<rparr>]"
    unfolding remove_arc_private_states_def
    using 1 2 b e d
    by (simp add: Let_def erase_stored_arc_def erase_endpoint_def erase_adjacency_entry_def)
  show "remove_arc_private g arc from to =
      (True,
       g\<lparr>adjacency := AList.update from (remove1 (to, arc) bucket) (adjacency g),
         endpoint_dic := filter (\<lambda>elem. fst elem \<noteq> arc) (endpoint_dic g),
         stored_arc := rev (remove1 arc (rev (stored_arc g)))\<rparr>)"
    unfolding remove_arc_private_def
    using 1 2 b e d
    by (simp add: erase_stored_arc_def erase_endpoint_def erase_adjacency_entry_def)
qed


lemma remove_arc_private_last_state:
  "remove_arc_private g arc from to =
     (remove_arc_private_states g arc from to \<noteq> [],
      last (g # remove_arc_private_states g arc from to))"
  by (simp add: remove_arc_private_def remove_arc_private_states_def Let_def
      split: option.splits)

text \<open>
  C7. The private \<^verbatim>\<open>remove_arc(arc, from, to)\<close> looks everything up before it
  changes anything. When the arc is not in the arc list, or \<open>from\<close> has no bucket,
  or the bucket has no pair \<open>(to, arc)\<close>, it returns \<^verbatim>\<open>false\<close>, the object is the one
  it was given, and it has been in no other state. Otherwise the object goes
  through three states, in this order: the given one with the first pair
  \<open>(to, arc)\<close> taken out of the bucket of \<open>from\<close>; that one with the entry of
  \<open>arc\<close> taken out of the endpoint index; that one with the last entry equal to
  \<open>arc\<close> taken out of the arc list. The last state is the object it leaves, and it
  returns \<^verbatim>\<open>true\<close>.
\<close>

theorem remove_arc_private_check_then_act:
  "(\<not> (arc \<in> set (stored_arc g) \<and>
        (\<exists>bucket. map_of (adjacency g) from = Some bucket \<and> (to, arc) \<in> set bucket)) \<longrightarrow>
      remove_arc_private g arc from to = (False, g) \<and>
      remove_arc_private_states g arc from to = []) \<and>
   (\<forall>bucket. arc \<in> set (stored_arc g) \<and> map_of (adjacency g) from = Some bucket \<and>
        (to, arc) \<in> set bucket \<longrightarrow>
      remove_arc_private_states g arc from to =
        [g\<lparr>adjacency := AList.update from (remove1 (to, arc) bucket) (adjacency g)\<rparr>,
         g\<lparr>adjacency := AList.update from (remove1 (to, arc) bucket) (adjacency g),
           endpoint_dic := filter (\<lambda>elem. fst elem \<noteq> arc) (endpoint_dic g)\<rparr>,
         g\<lparr>adjacency := AList.update from (remove1 (to, arc) bucket) (adjacency g),
           endpoint_dic := filter (\<lambda>elem. fst elem \<noteq> arc) (endpoint_dic g),
           stored_arc := rev (remove1 arc (rev (stored_arc g)))\<rparr>] \<and>
      remove_arc_private g arc from to =
        (True,
         g\<lparr>adjacency := AList.update from (remove1 (to, arc) bucket) (adjacency g),
           endpoint_dic := filter (\<lambda>elem. fst elem \<noteq> arc) (endpoint_dic g),
           stored_arc := rev (remove1 arc (rev (stored_arc g)))\<rparr>))"
proof (intro conjI impI allI)
  assume h: "\<not> (arc \<in> set (stored_arc g) \<and>
        (\<exists>bucket. map_of (adjacency g) from = Some bucket \<and> (to, arc) \<in> set bucket))"
  from remove_arc_private_fail [OF h]
  show "remove_arc_private g arc from to = (False, g)" .
  from remove_arc_private_states_fail [OF h]
  show "remove_arc_private_states g arc from to = []" .
next
  fix bucket
  assume h: "arc \<in> set (stored_arc g) \<and> map_of (adjacency g) from = Some bucket \<and>
        (to, arc) \<in> set bucket"
  then have a: "arc \<in> set (stored_arc g)" and b: "map_of (adjacency g) from = Some bucket"
    and p: "(to, arc) \<in> set bucket" by simp_all
  from remove_arc_private_effect(1) [OF a b p]
  show "remove_arc_private_states g arc from to =
        [g\<lparr>adjacency := AList.update from (remove1 (to, arc) bucket) (adjacency g)\<rparr>,
         g\<lparr>adjacency := AList.update from (remove1 (to, arc) bucket) (adjacency g),
           endpoint_dic := filter (\<lambda>elem. fst elem \<noteq> arc) (endpoint_dic g)\<rparr>,
         g\<lparr>adjacency := AList.update from (remove1 (to, arc) bucket) (adjacency g),
           endpoint_dic := filter (\<lambda>elem. fst elem \<noteq> arc) (endpoint_dic g),
           stored_arc := rev (remove1 arc (rev (stored_arc g)))\<rparr>]" .
next
  fix bucket
  assume h: "arc \<in> set (stored_arc g) \<and> map_of (adjacency g) from = Some bucket \<and>
        (to, arc) \<in> set bucket"
  then have a: "arc \<in> set (stored_arc g)" and b: "map_of (adjacency g) from = Some bucket"
    and p: "(to, arc) \<in> set bucket" by simp_all
  from remove_arc_private_effect(2) [OF a b p]
  show "remove_arc_private g arc from to =
        (True,
         g\<lparr>adjacency := AList.update from (remove1 (to, arc) bucket) (adjacency g),
           endpoint_dic := filter (\<lambda>elem. fst elem \<noteq> arc) (endpoint_dic g),
           stored_arc := rev (remove1 arc (rev (stored_arc g)))\<rparr>)" .
qed

theorem remove_arc_private_check_then_act_witness:
  "ArcPtr 3 \<in> set (stored_arc parallel_arc_graph) \<and>
   map_of (adjacency parallel_arc_graph) (NodePtr 1) =
     Some [(NodePtr 2, ArcPtr 1), (NodePtr 2, ArcPtr 2)] \<and>
   (NodePtr 2, ArcPtr 3) \<notin> set [(NodePtr 2, ArcPtr 1), (NodePtr 2, ArcPtr 2)] \<and>
   remove_arc_private parallel_arc_graph (ArcPtr 3) (NodePtr 1) (NodePtr 2) =
     (False, parallel_arc_graph) \<and>
   remove_arc_private_states parallel_arc_graph (ArcPtr 3) (NodePtr 1) (NodePtr 2) = [] \<and>
   ArcPtr 1 \<in> set (stored_arc parallel_arc_graph) \<and>
   (NodePtr 2, ArcPtr 1) \<in> set [(NodePtr 2, ArcPtr 1), (NodePtr 2, ArcPtr 2)] \<and>
   remove_arc_private_states parallel_arc_graph (ArcPtr 1) (NodePtr 1) (NodePtr 2) =
     [\<lparr>stored_node = [NodePtr 1, NodePtr 2], stored_arc = [ArcPtr 1, ArcPtr 2, ArcPtr 3],
       endpoint_dic = [(ArcPtr 1, NodePtr 1, NodePtr 2), (ArcPtr 2, NodePtr 1, NodePtr 2),
                       (ArcPtr 3, NodePtr 2, NodePtr 1)],
       adjacency = [(NodePtr 1, [(NodePtr 2, ArcPtr 2)]), (NodePtr 2, [(NodePtr 1, ArcPtr 3)])]\<rparr>,
      \<lparr>stored_node = [NodePtr 1, NodePtr 2], stored_arc = [ArcPtr 1, ArcPtr 2, ArcPtr 3],
       endpoint_dic = [(ArcPtr 2, NodePtr 1, NodePtr 2), (ArcPtr 3, NodePtr 2, NodePtr 1)],
       adjacency = [(NodePtr 1, [(NodePtr 2, ArcPtr 2)]), (NodePtr 2, [(NodePtr 1, ArcPtr 3)])]\<rparr>,
      \<lparr>stored_node = [NodePtr 1, NodePtr 2], stored_arc = [ArcPtr 2, ArcPtr 3],
       endpoint_dic = [(ArcPtr 2, NodePtr 1, NodePtr 2), (ArcPtr 3, NodePtr 2, NodePtr 1)],
       adjacency = [(NodePtr 1, [(NodePtr 2, ArcPtr 2)]), (NodePtr 2, [(NodePtr 1, ArcPtr 3)])]\<rparr>] \<and>
   remove_arc_private parallel_arc_graph (ArcPtr 1) (NodePtr 1) (NodePtr 2) =
     (True,
      \<lparr>stored_node = [NodePtr 1, NodePtr 2], stored_arc = [ArcPtr 2, ArcPtr 3],
       endpoint_dic = [(ArcPtr 2, NodePtr 1, NodePtr 2), (ArcPtr 3, NodePtr 2, NodePtr 1)],
       adjacency = [(NodePtr 1, [(NodePtr 2, ArcPtr 2)]), (NodePtr 2, [(NodePtr 1, ArcPtr 3)])]\<rparr>) \<and>
   ArcPtr 1 \<in> set (stored_arc duplicate_node_graph) \<and>
   map_of (adjacency duplicate_node_graph) (NodePtr 3) =
     Some [(NodePtr 4, ArcPtr 1), (NodePtr 4, ArcPtr 2), (NodePtr 4, ArcPtr 1)] \<and>
   remove_arc_private duplicate_node_graph (ArcPtr 1) (NodePtr 3) (NodePtr 4) =
     (True,
      \<lparr>stored_node = [NodePtr 1, NodePtr 2, NodePtr 1], stored_arc = [ArcPtr 1, ArcPtr 2],
       endpoint_dic = [(ArcPtr 2, NodePtr 3, NodePtr 4)],
       adjacency = [(NodePtr 1, []), (NodePtr 2, []),
                    (NodePtr 3, [(NodePtr 4, ArcPtr 2), (NodePtr 4, ArcPtr 1)])]\<rparr>)"
proof -
  let ?b = "[(NodePtr 2, ArcPtr 1), (NodePtr 2, ArcPtr 2)]"
  let ?d = "[(NodePtr 4, ArcPtr 1), (NodePtr 4, ArcPtr 2), (NodePtr 4, ArcPtr 1)]"
  have b: "map_of (adjacency parallel_arc_graph) (NodePtr 1) = Some ?b"
    by (simp add: parallel_arc_graph_def)
  have a3: "ArcPtr 3 \<in> set (stored_arc parallel_arc_graph)"
    and a1: "ArcPtr 1 \<in> set (stored_arc parallel_arc_graph)"
    by (simp_all add: parallel_arc_graph_def)
  have p3: "(NodePtr 2, ArcPtr 3) \<notin> set ?b" and p1: "(NodePtr 2, ArcPtr 1) \<in> set ?b"
    by simp_all
  have d: "map_of (adjacency duplicate_node_graph) (NodePtr 3) = Some ?d"
    and da: "ArcPtr 1 \<in> set (stored_arc duplicate_node_graph)"
    and dp: "(NodePtr 4, ArcPtr 1) \<in> set ?d"
    by (simp_all add: duplicate_node_graph_def)
  from b p3 have f: "\<not> (ArcPtr 3 \<in> set (stored_arc parallel_arc_graph) \<and>
        (\<exists>bucket. map_of (adjacency parallel_arc_graph) (NodePtr 1) = Some bucket \<and>
                  (NodePtr 2, ArcPtr 3) \<in> set bucket))"
    by simp
  note t3 = remove_arc_private_check_then_act
    [of "ArcPtr 3" parallel_arc_graph "NodePtr 1" "NodePtr 2"]
  note t1 = remove_arc_private_check_then_act
    [of "ArcPtr 1" parallel_arc_graph "NodePtr 1" "NodePtr 2"]
  note td = remove_arc_private_check_then_act
    [of "ArcPtr 1" duplicate_node_graph "NodePtr 3" "NodePtr 4"]
  from t3 f have 1: "remove_arc_private parallel_arc_graph (ArcPtr 3) (NodePtr 1) (NodePtr 2) =
      (False, parallel_arc_graph)"
    and 2: "remove_arc_private_states parallel_arc_graph (ArcPtr 3) (NodePtr 1) (NodePtr 2) = []"
    by blast+
  from t1 a1 b p1 have
    "remove_arc_private_states parallel_arc_graph (ArcPtr 1) (NodePtr 1) (NodePtr 2) =
        [parallel_arc_graph\<lparr>adjacency :=
           AList.update (NodePtr 1) (remove1 (NodePtr 2, ArcPtr 1) ?b) (adjacency parallel_arc_graph)\<rparr>,
         parallel_arc_graph\<lparr>adjacency :=
           AList.update (NodePtr 1) (remove1 (NodePtr 2, ArcPtr 1) ?b) (adjacency parallel_arc_graph),
           endpoint_dic := filter (\<lambda>elem. fst elem \<noteq> ArcPtr 1) (endpoint_dic parallel_arc_graph)\<rparr>,
         parallel_arc_graph\<lparr>adjacency :=
           AList.update (NodePtr 1) (remove1 (NodePtr 2, ArcPtr 1) ?b) (adjacency parallel_arc_graph),
           endpoint_dic := filter (\<lambda>elem. fst elem \<noteq> ArcPtr 1) (endpoint_dic parallel_arc_graph),
           stored_arc := rev (remove1 (ArcPtr 1) (rev (stored_arc parallel_arc_graph)))\<rparr>]"
    and
    "remove_arc_private parallel_arc_graph (ArcPtr 1) (NodePtr 1) (NodePtr 2) =
        (True,
         parallel_arc_graph\<lparr>adjacency :=
           AList.update (NodePtr 1) (remove1 (NodePtr 2, ArcPtr 1) ?b) (adjacency parallel_arc_graph),
           endpoint_dic := filter (\<lambda>elem. fst elem \<noteq> ArcPtr 1) (endpoint_dic parallel_arc_graph),
           stored_arc := rev (remove1 (ArcPtr 1) (rev (stored_arc parallel_arc_graph)))\<rparr>)"
    by blast+
  then have 3: "remove_arc_private_states parallel_arc_graph (ArcPtr 1) (NodePtr 1) (NodePtr 2) =
     [\<lparr>stored_node = [NodePtr 1, NodePtr 2], stored_arc = [ArcPtr 1, ArcPtr 2, ArcPtr 3],
       endpoint_dic = [(ArcPtr 1, NodePtr 1, NodePtr 2), (ArcPtr 2, NodePtr 1, NodePtr 2),
                       (ArcPtr 3, NodePtr 2, NodePtr 1)],
       adjacency = [(NodePtr 1, [(NodePtr 2, ArcPtr 2)]), (NodePtr 2, [(NodePtr 1, ArcPtr 3)])]\<rparr>,
      \<lparr>stored_node = [NodePtr 1, NodePtr 2], stored_arc = [ArcPtr 1, ArcPtr 2, ArcPtr 3],
       endpoint_dic = [(ArcPtr 2, NodePtr 1, NodePtr 2), (ArcPtr 3, NodePtr 2, NodePtr 1)],
       adjacency = [(NodePtr 1, [(NodePtr 2, ArcPtr 2)]), (NodePtr 2, [(NodePtr 1, ArcPtr 3)])]\<rparr>,
      \<lparr>stored_node = [NodePtr 1, NodePtr 2], stored_arc = [ArcPtr 2, ArcPtr 3],
       endpoint_dic = [(ArcPtr 2, NodePtr 1, NodePtr 2), (ArcPtr 3, NodePtr 2, NodePtr 1)],
       adjacency = [(NodePtr 1, [(NodePtr 2, ArcPtr 2)]), (NodePtr 2, [(NodePtr 1, ArcPtr 3)])]\<rparr>]"
    and 4: "remove_arc_private parallel_arc_graph (ArcPtr 1) (NodePtr 1) (NodePtr 2) =
     (True,
      \<lparr>stored_node = [NodePtr 1, NodePtr 2], stored_arc = [ArcPtr 2, ArcPtr 3],
       endpoint_dic = [(ArcPtr 2, NodePtr 1, NodePtr 2), (ArcPtr 3, NodePtr 2, NodePtr 1)],
       adjacency = [(NodePtr 1, [(NodePtr 2, ArcPtr 2)]), (NodePtr 2, [(NodePtr 1, ArcPtr 3)])]\<rparr>)"
    by (simp_all add: parallel_arc_graph_def)
  from td da d dp have
    "remove_arc_private duplicate_node_graph (ArcPtr 1) (NodePtr 3) (NodePtr 4) =
        (True,
         duplicate_node_graph\<lparr>adjacency :=
           AList.update (NodePtr 3) (remove1 (NodePtr 4, ArcPtr 1) ?d) (adjacency duplicate_node_graph),
           endpoint_dic := filter (\<lambda>elem. fst elem \<noteq> ArcPtr 1) (endpoint_dic duplicate_node_graph),
           stored_arc := rev (remove1 (ArcPtr 1) (rev (stored_arc duplicate_node_graph)))\<rparr>)"
    by blast
  then have 5: "remove_arc_private duplicate_node_graph (ArcPtr 1) (NodePtr 3) (NodePtr 4) =
     (True,
      \<lparr>stored_node = [NodePtr 1, NodePtr 2, NodePtr 1], stored_arc = [ArcPtr 1, ArcPtr 2],
       endpoint_dic = [(ArcPtr 2, NodePtr 3, NodePtr 4)],
       adjacency = [(NodePtr 1, []), (NodePtr 2, []),
                    (NodePtr 3, [(NodePtr 4, ArcPtr 2), (NodePtr 4, ArcPtr 1)])]\<rparr>)"
    by (simp add: duplicate_node_graph_def)
  from a3 b p3 1 2 a1 p1 3 4 da d 5 show ?thesis by blast
qed

subsection \<open>The node list under the arc operations\<close>

lemma remove_arc_private_stored_node:
  "stored_node (snd (remove_arc_private g arc from to)) = stored_node g"
  by (simp add: remove_arc_private_def erase_stored_arc_def erase_endpoint_def
      erase_adjacency_entry_def split: option.splits)

lemma add_arc_stored_node: "stored_node (snd (add_arc oom g arc from to)) = stored_node g"
proof (cases "bucket_push_back oom (adjacency g) from (to, arc)")
  case (Pair r adj)
  then show ?thesis
    by (cases r) (simp_all add: add_arc_def Let_def)
qed

text \<open>
  C10. \<^verbatim>\<open>add_arc\<close> (whether or not an allocation fails), \<^verbatim>\<open>remove_arc(arc)\<close> and
  \<^verbatim>\<open>remove_arc(from, to)\<close> leave the node list as it was: \<^verbatim>\<open>all_node()\<close> returns
  the same sequence before and after the call, whatever the call returns.
\<close>

theorem arc_operations_keep_all_node:
  "all_node (snd (add_arc oom g arc from to)) = all_node g \<and>
   all_node (snd (remove_arc g arc)) = all_node g \<and>
   all_node (snd (remove_arc_from_to g from to)) = all_node g"
  by (simp add: all_node_def add_arc_stored_node remove_arc_def remove_arc_from_to_def
      remove_arc_private_stored_node split: option.splits prod.splits)

subsection \<open>Children of a node\<close>

text \<open>
  C9. \<^verbatim>\<open>child_nodes(parent)\<close> throws \<^verbatim>\<open>std::out_of_range\<close> when \<open>parent\<close> has no
  bucket, and returns the targets of the bucket in the order of the bucket when
  it has one. That order is the order of insertion: a successful
  \<^verbatim>\<open>add_arc(arc, parent, to)\<close> puts \<open>to\<close> behind the children there were. The
  function is a \<^verbatim>\<open>const\<close> member, a function of the object alone.
\<close>

theorem child_nodes_at:
  "(map_of (adjacency g) parent = None \<longrightarrow> child_nodes g parent = Inl out_of_range) \<and>
   (\<forall>bucket. map_of (adjacency g) parent = Some bucket \<longrightarrow>
      child_nodes g parent = Inr (map fst bucket)) \<and>
   (\<forall>r g'. add_arc oom g arc parent to = (Inr r, g') \<longrightarrow>
      child_nodes g' parent =
        Inr ((case child_nodes g parent of Inl e \<Rightarrow> [] | Inr nodes \<Rightarrow> nodes) @ [to]))"
  by (auto simp: child_nodes_def add_arc_def bucket_push_back_def Let_def update_conv'
      split: option.splits if_splits prod.splits sum.splits)

theorem child_nodes_at_witness:
  "map_of (adjacency empty_graph) (NodePtr 1) = None \<and>
   child_nodes empty_graph (NodePtr 1) = Inl out_of_range \<and>
   map_of (adjacency one_arc_graph) (NodePtr 1) = Some [(NodePtr 2, ArcPtr 1)] \<and>
   child_nodes one_arc_graph (NodePtr 1) = Inr [NodePtr 2] \<and>
   add_arc no_fault one_arc_graph (ArcPtr 2) (NodePtr 1) (NodePtr 3) =
     (Inr (ArcPtr 2), two_arc_graph) \<and>
   child_nodes two_arc_graph (NodePtr 1) = Inr [NodePtr 2, NodePtr 3]"
proof -
  have a: "map_of (adjacency empty_graph) (NodePtr 1) = None"
    by (simp add: empty_graph_def)
  have b: "map_of (adjacency one_arc_graph) (NodePtr 1) = Some [(NodePtr 2, ArcPtr 1)]"
    by (simp add: one_arc_graph_def)
  have c: "add_arc no_fault one_arc_graph (ArcPtr 2) (NodePtr 1) (NodePtr 3) =
     (Inr (ArcPtr 2), two_arc_graph)"
    by (simp add: add_arc_def bucket_push_back_def no_fault_def Let_def one_arc_graph_def
        two_arc_graph_def)
  note t = child_nodes_at [of one_arc_graph "NodePtr 1" no_fault "ArcPtr 2" "NodePtr 3"]
  from child_nodes_at [of empty_graph "NodePtr 1"] a
  have 1: "child_nodes empty_graph (NodePtr 1) = Inl out_of_range" by blast
  from t b have 2: "child_nodes one_arc_graph (NodePtr 1) = Inr [NodePtr 2]" by simp
  from t c have "child_nodes two_arc_graph (NodePtr 1) =
      Inr ((case child_nodes one_arc_graph (NodePtr 1) of Inl e \<Rightarrow> [] | Inr nodes \<Rightarrow> nodes)
           @ [NodePtr 3])"
    by blast
  with 2 have 3: "child_nodes two_arc_graph (NodePtr 1) = Inr [NodePtr 2, NodePtr 3]" by simp
  from a b c 1 2 3 show ?thesis by simp
qed

subsection \<open>An arc from a node without a bucket\<close>

lemma bucket_push_back_throws:
  "bucket_push_back oom adj from arc_pair = (Inl e, adj') \<Longrightarrow>
     e = bad_alloc \<and> (oom NewBucket \<or> oom PushAdjacent)"
  by (auto simp: bucket_push_back_def split: option.splits if_splits)

lemma add_arc_throws:
  assumes "add_arc oom g arc from to = (Inl e, g')"
  shows "e = bad_alloc \<and> (oom PushArc \<or> oom NewEndpoint \<or> oom NewBucket \<or> oom PushAdjacent)"
proof (cases "bucket_push_back oom (adjacency g) from (to, arc)")
  case (Pair r adj)
  show ?thesis
  proof (cases r)
    case (Inl e')
    with Pair bucket_push_back_throws have "e' = bad_alloc \<and> (oom NewBucket \<or> oom PushAdjacent)"
      by blast
    with assms Pair Inl show ?thesis
      by (auto simp: add_arc_def Let_def split: if_splits)
  next
    case (Inr u)
    with assms Pair show ?thesis
      by (auto simp: add_arc_def Let_def split: if_splits)
  qed
qed

lemma add_arc_no_bucket:
  assumes "map_of (adjacency g) from = None"
  shows "add_arc no_fault g arc from to =
       (Inr arc, g\<lparr>stored_arc := stored_arc g @ [arc],
                   endpoint_dic := AList.update arc (from, to) (endpoint_dic g),
                   adjacency := AList.update from [(to, arc)] (adjacency g)\<rparr>)"
  using assms by (simp add: add_arc_def bucket_push_back_def no_fault_def Let_def)

text \<open>
  C2, as the code has it. \<^verbatim>\<open>add_arc(arc, from, to)\<close> does not reject a \<open>from\<close> without
  a bucket: \<^verbatim>\<open>adjacency_[from]\<close> creates the bucket, and when no allocation fails
  the call returns \<open>arc\<close>, with the arc appended to the arc list, its endpoints
  recorded and \<open>(to, arc)\<close> the only pair of the new bucket. The only exception
  \<^verbatim>\<open>add_arc\<close> lets out is \<^verbatim>\<open>std::bad_alloc\<close> from a failed allocation.
\<close>

theorem add_arc_creates_missing_bucket:
  "(map_of (adjacency g) from = None \<longrightarrow>
      add_arc no_fault g arc from to =
       (Inr arc, g\<lparr>stored_arc := stored_arc g @ [arc],
                   endpoint_dic := AList.update arc (from, to) (endpoint_dic g),
                   adjacency := AList.update from [(to, arc)] (adjacency g)\<rparr>)) \<and>
   (\<forall>e g'. add_arc oom g arc from to = (Inl e, g') \<longrightarrow>
      e = bad_alloc \<and> (oom PushArc \<or> oom NewEndpoint \<or> oom NewBucket \<or> oom PushAdjacent))"
  using add_arc_no_bucket [of g "from" arc to] add_arc_throws [of oom g arc "from" to] by blast

theorem add_arc_creates_missing_bucket_witness:
  "map_of (adjacency empty_graph) (NodePtr 1) = None \<and>
   add_arc no_fault empty_graph (ArcPtr 1) (NodePtr 1) (NodePtr 2) =
     (Inr (ArcPtr 1),
      \<lparr>stored_node = [], stored_arc = [ArcPtr 1],
       endpoint_dic = [(ArcPtr 1, NodePtr 1, NodePtr 2)],
       adjacency = [(NodePtr 1, [(NodePtr 2, ArcPtr 1)])]\<rparr>) \<and>
   add_arc (\<lambda>site. site = PushArc) empty_graph (ArcPtr 1) (NodePtr 1) (NodePtr 2) =
     (Inl bad_alloc, empty_graph) \<and>
   bad_alloc = bad_alloc \<and>
   ((PushArc = PushArc) \<or> (NewEndpoint = PushArc) \<or> (NewBucket = PushArc) \<or> (PushAdjacent = PushArc))"
proof -
  have a: "map_of (adjacency empty_graph) (NodePtr 1) = None"
    by (simp add: empty_graph_def)
  have b: "add_arc (\<lambda>site. site = PushArc) empty_graph (ArcPtr 1) (NodePtr 1) (NodePtr 2) =
     (Inl bad_alloc, empty_graph)"
    by (simp add: add_arc_def)
  from a add_arc_creates_missing_bucket [of empty_graph "NodePtr 1" "ArcPtr 1" "NodePtr 2"]
  have "add_arc no_fault empty_graph (ArcPtr 1) (NodePtr 1) (NodePtr 2) =
       (Inr (ArcPtr 1), empty_graph\<lparr>stored_arc := stored_arc empty_graph @ [ArcPtr 1],
          endpoint_dic := AList.update (ArcPtr 1) (NodePtr 1, NodePtr 2) (endpoint_dic empty_graph),
          adjacency := AList.update (NodePtr 1) [(NodePtr 2, ArcPtr 1)] (adjacency empty_graph)\<rparr>)"
    by blast
  then have c: "add_arc no_fault empty_graph (ArcPtr 1) (NodePtr 1) (NodePtr 2) =
     (Inr (ArcPtr 1),
      \<lparr>stored_node = [], stored_arc = [ArcPtr 1],
       endpoint_dic = [(ArcPtr 1, NodePtr 1, NodePtr 2)],
       adjacency = [(NodePtr 1, [(NodePtr 2, ArcPtr 1)])]\<rparr>)"
    by (simp add: empty_graph_def)
  from b add_arc_creates_missing_bucket [of empty_graph "NodePtr 1" "ArcPtr 1" "NodePtr 2"
      "\<lambda>site. site = PushArc"]
  have d: "bad_alloc = bad_alloc \<and>
   ((PushArc = PushArc) \<or> (NewEndpoint = PushArc) \<or> (NewBucket = PushArc) \<or> (PushAdjacent = PushArc))"
    by blast
  from a b c d show ?thesis by blast
qed

text \<open>
  C2 as stated fails: on the empty object, where node 1 is neither registered nor
  has a bucket, \<^verbatim>\<open>add_arc\<close> from node 1 returns the arc.
\<close>

theorem add_arc_unregistered_from_succeeds:
  "map_of (adjacency empty_graph) (NodePtr 1) = None \<and>
   NodePtr 1 \<notin> set (stored_node empty_graph) \<and>
   add_arc no_fault empty_graph (ArcPtr 1) (NodePtr 1) (NodePtr 2) =
     (Inr (ArcPtr 1),
      \<lparr>stored_node = [], stored_arc = [ArcPtr 1],
       endpoint_dic = [(ArcPtr 1, NodePtr 1, NodePtr 2)],
       adjacency = [(NodePtr 1, [(NodePtr 2, ArcPtr 1)])]\<rparr>)"
  by (simp add: add_arc_def bucket_push_back_def no_fault_def Let_def empty_graph_def)

subsection \<open>Failed allocations\<close>

lemma add_node_strong_guarantee:
  "add_node oom g node = (Inl e, g') \<Longrightarrow> g' = g \<and> e = bad_alloc"
  by (auto simp: add_node_def Let_def split: if_splits)

lemma add_arc_strong_guarantee_fresh:
  assumes "map_of (endpoint_dic g) arc = None" and "map_of (adjacency g) from = Some bucket"
    and "distinct (map fst (endpoint_dic g))"
    and "add_arc oom g arc from to = (Inl e, g')"
  shows "g' = g"
  using assms
  by (auto simp: add_arc_def bucket_push_back_def Let_def delete_update_same
      map_of_eq_None_iff split: if_splits)

text \<open>
  C3 at two inputs. The object with node 1 registered and arc 1 from node 1 to
  node 2 is reached by two calls. Registering arc 1 there again, with the
  allocation of the bucket's list node failing: the assignment to
  \<^verbatim>\<open>endpoint_dic_[arc]\<close> has overwritten the entry that was there, and the handler's
  \<^verbatim>\<open>endpoint_dic_.erase(arc)\<close> removes it, so the endpoint index has lost the
  entry it had before the call. On the empty object, with the same allocation
  failing: \<^verbatim>\<open>adjacency_[from]\<close> has created the bucket before \<^verbatim>\<open>push_back\<close> throws,
  and no handler removes it.
\<close>

theorem add_arc_rollback_loses_state:
  "run [AddNode (NodePtr 1), AddArc (ArcPtr 1) (NodePtr 1) (NodePtr 2)] empty_graph =
     Some one_arc_graph \<and>
   add_arc (\<lambda>site. site = PushAdjacent) one_arc_graph (ArcPtr 1) (NodePtr 1) (NodePtr 2) =
     (Inl bad_alloc, one_arc_graph\<lparr>endpoint_dic := []\<rparr>) \<and>
   one_arc_graph\<lparr>endpoint_dic := []\<rparr> \<noteq> one_arc_graph \<and>
   add_arc (\<lambda>site. site = PushAdjacent) empty_graph (ArcPtr 1) (NodePtr 1) (NodePtr 2) =
     (Inl bad_alloc, empty_graph\<lparr>adjacency := [(NodePtr 1, [])]\<rparr>) \<and>
   empty_graph\<lparr>adjacency := [(NodePtr 1, [])]\<rparr> \<noteq> empty_graph"
  by (simp add: add_arc_def add_node_def bucket_push_back_def no_fault_def Let_def
      empty_graph_def one_arc_graph_def)

subsection \<open>Which of several equal entries is erased\<close>

lemma remove_arc_stored_node: "stored_node (snd (remove_arc g arc)) = stored_node g"
  by (simp add: remove_arc_def remove_arc_private_stored_node split: option.splits prod.splits)

lemma delete_arcs_stored_node: "stored_node (snd (delete_arcs node arcs g)) = stored_node g"
proof (induction arcs arbitrary: g)
  case Nil
  show ?case by simp
next
  case (Cons arc arcs)
  show ?case
  proof (cases "map_of (endpoint_dic g) arc")
    case None
    then show ?thesis by simp
  next
    case (Some endpoint)
    obtain "from" to where endpoint: "endpoint = (from, to)" by (cases endpoint)
    obtain ok g' where r: "remove_arc g arc = (ok, g')" by (cases "remove_arc g arc")
    with remove_arc_stored_node [of g arc] have "stored_node g' = stored_node g" by simp
    with Some endpoint r Cons.IH [of g'] Cons.IH [of g] show ?thesis
      by (cases ok) simp_all
  qed
qed

lemma remove_node_false_unchanged:
  assumes "remove_node g node = (False, g')"
  shows "g' = g"
proof (cases "rfind_pos node (stored_node g)")
  case None
  with assms show ?thesis by (simp add: remove_node_def)
next
  case (Some it)
  obtain is_error g1 where d: "delete_arcs node (stored_arc g) g = (is_error, g1)"
    by (cases "delete_arcs node (stored_arc g) g")
  with delete_arcs_stored_node [of node "stored_arc g" g]
  have "stored_node g1 = stored_node g" by simp
  with assms Some d show ?thesis
    by (cases is_error) (auto simp: remove_node_def Let_def)
qed

lemma remove_node_erases_last:
  assumes "remove_node g node = (True, g')"
  shows "\<exists>pre post. stored_node g = pre @ node # post \<and> node \<notin> set post \<and>
           stored_node g' = pre @ post"
proof (cases "rfind_pos node (stored_node g)")
  case None
  with assms show ?thesis by (simp add: remove_node_def)
next
  case (Some it)
  obtain is_error g1 where d: "delete_arcs node (stored_arc g) g = (is_error, g1)"
    by (cases "delete_arcs node (stored_arc g) g")
  with delete_arcs_stored_node [of node "stored_arc g" g]
  have g1: "stored_node g1 = stored_node g" by simp
  from assms Some d g1 have "stored_node g' = erase_at it (stored_node g)"
    by (cases is_error) (auto simp: remove_node_def Let_def)
  moreover from rfind_pos_split [OF Some] obtain pre post
    where "stored_node g = pre @ node # post" "node \<notin> set post" "it = length pre" by blast
  ultimately have "stored_node g = pre @ node # post \<and> node \<notin> set post \<and>
           stored_node g' = pre @ post"
    by (simp add: erase_at_middle)
  then show ?thesis by blast
qed

lemma remove_arc_private_erases_last:
  assumes "remove_arc_private g arc from to = (True, g')"
  shows "\<exists>pre post. stored_arc g = pre @ arc # post \<and> arc \<notin> set post \<and>
           stored_arc g' = pre @ post"
proof (cases "rfind_pos arc (stored_arc g)")
  case None
  with assms show ?thesis by (simp add: remove_arc_private_def)
next
  case (Some arc_it)
  with assms have "stored_arc g' = erase_at arc_it (stored_arc g)"
    by (auto simp: remove_arc_private_def erase_stored_arc_def erase_endpoint_def
        erase_adjacency_entry_def split: option.splits)
  moreover from rfind_pos_split [OF Some] obtain pre post
    where "stored_arc g = pre @ arc # post" "arc \<notin> set post" "arc_it = length pre" by blast
  ultimately have "stored_arc g = pre @ arc # post \<and> arc \<notin> set post \<and>
           stored_arc g' = pre @ post"
    by (simp add: erase_at_middle)
  then show ?thesis by blast
qed





subsection \<open>Consistency as a property of the maps\<close>

lemma well_formed_maps:
  "well_formed g \<longleftrightarrow>
     distinct (map fst (adjacency g)) \<and> distinct (map fst (endpoint_dic g)) \<and>
     consistent_maps (stored_arc g) (map_of (endpoint_dic g)) (map_of (adjacency g))"
proof (cases "distinct (map fst (adjacency g)) \<and> distinct (map fst (endpoint_dic g))")
  case False
  then show ?thesis by (auto simp: well_formed_def arcs_indexed_def)
next
  case True
  then have dA: "distinct (map fst (adjacency g))" and dE: "distinct (map fst (endpoint_dic g))"
    by simp_all
  have E: "(\<forall>elem \<in> set (endpoint_dic g).
        \<exists>bucket. map_of (adjacency g) (fst (snd elem)) = Some bucket \<and>
                 (snd (snd elem), fst elem) \<in> set bucket) \<longleftrightarrow>
      (\<forall>a f t. map_of (endpoint_dic g) a = Some (f, t) \<longrightarrow>
         (\<exists>b. map_of (adjacency g) f = Some b \<and> (t, a) \<in> set b))"
    using dE by (simp add: map_of_eq_Some_iff) force
  have A: "(\<forall>kv \<in> set (adjacency g).
        distinct (snd kv) \<and>
        (\<forall>adjacent \<in> set (snd kv).
           map_of (endpoint_dic g) (snd adjacent) = Some (fst kv, fst adjacent))) \<longleftrightarrow>
      (\<forall>n b. map_of (adjacency g) n = Some b \<longrightarrow>
         distinct b \<and> (\<forall>t a. (t, a) \<in> set b \<longrightarrow> map_of (endpoint_dic g) a = Some (n, t)))"
    using dA by (simp only: map_of_eq_Some_iff) force
  show ?thesis
    unfolding well_formed_def arcs_indexed_def consistent_maps_def E A
    using True by (auto simp: dom_map_of_conv_image_fst)
qed

lemma consistent_maps_remove_arc:
  assumes c: "consistent_maps as E A" and e: "E a = Some (f, t)"
  shows "\<exists>b. A f = Some b \<and> (t, a) \<in> set b \<and> a \<in> set as \<and>
           consistent_maps (remove1 a as) (E(a := None)) (A(f \<mapsto> remove1 (t, a) b))"
proof -
  from c e obtain b where b: "A f = Some b" "(t, a) \<in> set b"
    unfolding consistent_maps_def by blast
  from c e have a: "a \<in> set as" unfolding consistent_maps_def by blast
  from c b have db: "distinct b" unfolding consistent_maps_def by blast
  have 2: "distinct (remove1 a as) \<and> dom (E(a := None)) = set (remove1 a as)"
    using c unfolding consistent_maps_def by (auto simp: set_remove1_eq)
  have 3: "\<exists>b'. (A(f \<mapsto> remove1 (t, a) b)) f' = Some b' \<and> (t', a') \<in> set b'"
    if "(E(a := None)) a' = Some (f', t')" for a' f' t'
  proof -
    from that have ne: "a' \<noteq> a" and e': "E a' = Some (f', t')" by (auto split: if_splits)
    from c e' obtain b' where b': "A f' = Some b'" "(t', a') \<in> set b'"
      unfolding consistent_maps_def by blast
    show ?thesis
    proof (cases "f' = f")
      case True
      with b b' ne show ?thesis by auto
    next
      case False
      with b' show ?thesis by auto
    qed
  qed
  have 4: "distinct b' \<and> (\<forall>t' a'. (t', a') \<in> set b' \<longrightarrow> (E(a := None)) a' = Some (n, t'))"
    if "(A(f \<mapsto> remove1 (t, a) b)) n = Some b'" for n b'
  proof (cases "n = f")
    case True
    with that have b': "b' = remove1 (t, a) b" by simp
    have "(E(a := None)) a' = Some (n, t')" if m: "(t', a') \<in> set b'" for t' a'
    proof -
      from m b' db have in_b: "(t', a') \<in> set b" and neq: "(t', a') \<noteq> (t, a)" by auto
      from c b in_b have e': "E a' = Some (f, t')" unfolding consistent_maps_def by blast
      with e neq have "a' \<noteq> a" by auto
      with e' True show ?thesis by simp
    qed
    with b' db show ?thesis by simp
  next
    case False
    with that have An: "A n = Some b'" by simp
    have "(E(a := None)) a' = Some (n, t')" if m: "(t', a') \<in> set b'" for t' a'
    proof -
      from c An m have e': "E a' = Some (n, t')" unfolding consistent_maps_def by blast
      with e False have "a' \<noteq> a" by auto
      with e' show ?thesis by simp
    qed
    moreover from c An have "distinct b'" unfolding consistent_maps_def by blast
    ultimately show ?thesis by simp
  qed
  have "consistent_maps (remove1 a as) (E(a := None)) (A(f \<mapsto> remove1 (t, a) b))"
    unfolding consistent_maps_def using 2 3 4 by blast
  with b a show ?thesis by blast
qed

text \<open>A bucket without pairs, or no bucket, can be replaced by an empty bucket.\<close>

lemma consistent_maps_add_node:
  assumes c: "consistent_maps as E A" and n: "A n = None \<or> A n = Some []"
  shows "consistent_maps as E (A(n \<mapsto> []))"
proof -
  have 3: "\<exists>b. (A(n \<mapsto> [])) f = Some b \<and> (t, a) \<in> set b" if "E a = Some (f, t)" for a f t
  proof -
    from c that obtain b where "A f = Some b" "(t, a) \<in> set b"
      unfolding consistent_maps_def by blast
    with n show ?thesis by auto
  qed
  have 4: "distinct b \<and> (\<forall>t a. (t, a) \<in> set b \<longrightarrow> E a = Some (m, t))"
    if "(A(n \<mapsto> [])) m = Some b" for m b
    using that c unfolding consistent_maps_def by (cases "m = n") auto
  show ?thesis unfolding consistent_maps_def using 3 4 c
    by (simp add: consistent_maps_def)
qed

text \<open>A new arc is appended to the bucket of its source, or to an empty one.\<close>

lemma consistent_maps_add_arc:
  assumes c: "consistent_maps as E A" and a: "a \<notin> set as"
    and b: "b = (case A f of None \<Rightarrow> [] | Some bucket \<Rightarrow> bucket)"
  shows "consistent_maps (as @ [a]) (E(a \<mapsto> (f, t))) (A(f \<mapsto> b @ [(t, a)]))"
proof -
  from c a have Ea: "E a = None" unfolding consistent_maps_def by blast
  have fresh: "(t', a) \<notin> set b'" if "A n = Some b'" for n b' t'
  proof
    assume "(t', a) \<in> set b'"
    with c that have "E a = Some (n, t')" unfolding consistent_maps_def by blast
    with Ea show False by simp
  qed
  have db: "distinct b" and inb: "\<forall>t' a'. (t', a') \<in> set b \<longrightarrow> E a' = Some (f, t')"
    and fb: "\<forall>t'. (t', a) \<notin> set b"
    using c b fresh unfolding consistent_maps_def by (auto split: option.splits)
  have sub: "A f' = Some b' \<Longrightarrow> f' = f \<Longrightarrow> b' = b" for f' b'
    using b by simp
  have 2: "distinct (as @ [a]) \<and> dom (E(a \<mapsto> (f, t))) = set (as @ [a])"
    using c a unfolding consistent_maps_def by auto
  have 3: "\<exists>b'. (A(f \<mapsto> b @ [(t, a)])) f' = Some b' \<and> (t', a') \<in> set b'"
    if "(E(a \<mapsto> (f, t))) a' = Some (f', t')" for a' f' t'
  proof (cases "a' = a")
    case True
    with that show ?thesis by simp
  next
    case False
    with that have "E a' = Some (f', t')" by simp
    with c obtain b' where b': "A f' = Some b'" "(t', a') \<in> set b'"
      unfolding consistent_maps_def by blast
    show ?thesis
    proof (cases "f' = f")
      case True
      with b' sub have "b' = b" by blast
      with b' True show ?thesis by simp
    next
      case False
      with b' show ?thesis by simp
    qed
  qed
  have 4: "distinct b' \<and> (\<forall>t' a'. (t', a') \<in> set b' \<longrightarrow> (E(a \<mapsto> (f, t))) a' = Some (n, t'))"
    if "(A(f \<mapsto> b @ [(t, a)])) n = Some b'" for n b'
  proof (cases "n = f")
    case True
    with that have b': "b' = b @ [(t, a)]" by simp
    from fb db have "distinct b'" unfolding b' by simp
    moreover have "(E(a \<mapsto> (f, t))) a' = Some (n, t')" if "(t', a') \<in> set b'" for t' a'
    proof (cases "(t', a') = (t, a)")
      case True
      with \<open>n = f\<close> show ?thesis by simp
    next
      case False
      with that b' have m: "(t', a') \<in> set b" by auto
      with fb have "a' \<noteq> a" by auto
      with m inb \<open>n = f\<close> show ?thesis by simp
    qed
    ultimately show ?thesis by blast
  next
    case False
    with that have An: "A n = Some b'" by simp
    from c An have db': "distinct b'"
      and inb': "\<forall>t' a'. (t', a') \<in> set b' \<longrightarrow> E a' = Some (n, t')"
      unfolding consistent_maps_def by blast+
    have "(E(a \<mapsto> (f, t))) a' = Some (n, t')" if "(t', a') \<in> set b'" for t' a'
    proof -
      from that fresh [OF An] have "a' \<noteq> a" by auto
      with that inb' show ?thesis by simp
    qed
    with db' show ?thesis by blast
  qed
  show ?thesis unfolding consistent_maps_def using 2 3 4 by blast
qed

text \<open>The bucket of a node that is the source of no arc can be erased.\<close>

lemma consistent_maps_remove_node:
  assumes c: "consistent_maps as E A" and n: "\<forall>a f t. E a = Some (f, t) \<longrightarrow> f \<noteq> n"
  shows "consistent_maps as E (A(n := None))"
proof -
  have 3: "\<exists>b. (A(n := None)) f = Some b \<and> (t, a) \<in> set b" if "E a = Some (f, t)" for a f t
  proof -
    from c that obtain b where "A f = Some b" "(t, a) \<in> set b"
      unfolding consistent_maps_def by blast
    moreover from n that have "f \<noteq> n" by blast
    ultimately show ?thesis by simp
  qed
  have 4: "distinct b \<and> (\<forall>t a. (t, a) \<in> set b \<longrightarrow> E a = Some (m, t))"
    if "(A(n := None)) m = Some b" for m b
    using that c unfolding consistent_maps_def by (cases "m = n") auto
  show ?thesis unfolding consistent_maps_def using 3 4 c
    by (simp add: consistent_maps_def)
qed

subsection \<open>Removals keep consistency\<close>

lemma remove_arc_private_well_formed:
  assumes wf: "well_formed g" and e: "map_of (endpoint_dic g) arc = Some (from, to)"
  shows "\<exists>g'. remove_arc_private g arc from to = (True, g') \<and> well_formed g' \<and>
           stored_node g' = stored_node g \<and>
           stored_arc g' = remove1 arc (stored_arc g) \<and>
           endpoint_dic g' = AList.delete arc (endpoint_dic g)"
proof -
  from wf have dA: "distinct (map fst (adjacency g))" and dE: "distinct (map fst (endpoint_dic g))"
    and c: "consistent_maps (stored_arc g) (map_of (endpoint_dic g)) (map_of (adjacency g))"
    by (simp_all add: well_formed_maps)
  from consistent_maps_remove_arc [OF c e] obtain bucket where
    b: "map_of (adjacency g) from = Some bucket" "(to, arc) \<in> set bucket"
      "arc \<in> set (stored_arc g)" and
    c': "consistent_maps (remove1 arc (stored_arc g))
           ((map_of (endpoint_dic g))(arc := None))
           ((map_of (adjacency g))(from \<mapsto> remove1 (to, arc) bucket))"
    by blast
  from remove_arc_private_success [OF b(3) b(1) b(2)] obtain arc_it adjacency_it where
    its: "rfind_pos arc (stored_arc g) = Some arc_it"
      "find_pos (to, arc) bucket = Some adjacency_it" and
    r: "remove_arc_private g arc from to =
         (True, erase_stored_arc arc_it
                  (erase_endpoint arc (erase_adjacency_entry from bucket adjacency_it g)))"
    by blast
  from c have "distinct (stored_arc g)" by (simp add: consistent_maps_def)
  from rfind_pos_erase_distinct [OF this its(1)]
  have ea: "erase_at arc_it (stored_arc g) = remove1 arc (stored_arc g)" .
  from find_pos_erase [OF its(2)]
  have eb: "erase_at adjacency_it bucket = remove1 (to, arc) bucket" .
  let ?g' = "erase_stored_arc arc_it
                  (erase_endpoint arc (erase_adjacency_entry from bucket adjacency_it g))"
  have fields: "stored_node ?g' = stored_node g"
    "stored_arc ?g' = remove1 arc (stored_arc g)"
    "endpoint_dic ?g' = AList.delete arc (endpoint_dic g)"
    "adjacency ?g' = AList.update from (remove1 (to, arc) bucket) (adjacency g)"
    by (simp_all add: erase_stored_arc_def erase_endpoint_def erase_adjacency_entry_def ea eb)
  have "well_formed ?g'"
    unfolding well_formed_maps fields
    using dA dE c' by (simp add: distinct_update distinct_delete update_conv' delete_conv')
  with r fields show ?thesis by simp
qed

lemma remove_arc_well_formed:
  assumes wf: "well_formed g" and e: "map_of (endpoint_dic g) arc = Some (from, to)"
  shows "\<exists>g'. remove_arc g arc = (True, g') \<and> well_formed g' \<and>
           stored_node g' = stored_node g \<and>
           stored_arc g' = remove1 arc (stored_arc g) \<and>
           endpoint_dic g' = AList.delete arc (endpoint_dic g)"
  using remove_arc_private_well_formed [OF wf e] e by (simp add: remove_arc_def)

lemma remove_arc_keeps_well_formed:
  assumes "well_formed g"
  shows "well_formed (snd (remove_arc g arc))"
proof (cases "map_of (endpoint_dic g) arc")
  case None
  with assms show ?thesis by (simp add: remove_arc_def)
next
  case (Some endpoint)
  obtain "from" to where "endpoint = (from, to)" by (cases endpoint)
  with Some remove_arc_well_formed [OF assms, of arc "from" to] show ?thesis by auto
qed

lemma find_Some_in_set: "find P xs = Some x \<Longrightarrow> x \<in> set xs \<and> P x"
  by (induction xs) (auto split: if_splits)

text \<open>
  Of the entry that \<^verbatim>\<open>remove_arc(from, to)\<close> finds, the proof uses only that it is
  in the index with these endpoints, not that it is the first such entry.
\<close>

lemma remove_arc_from_to_keeps_well_formed:
  assumes "well_formed g"
  shows "well_formed (snd (remove_arc_from_to g from to))"
proof (cases "find (\<lambda>elem. fst (snd elem) = from \<and> snd (snd elem) = to) (endpoint_dic g)")
  case None
  with assms show ?thesis by (simp add: remove_arc_from_to_def)
next
  case (Some endpoint_it)
  from find_Some_in_set [OF Some] have m: "endpoint_it \<in> set (endpoint_dic g)"
    and p: "snd endpoint_it = (from, to)" by (simp_all add: prod_eq_iff)
  from assms have "distinct (map fst (endpoint_dic g))" by (simp add: well_formed_maps)
  with m have "map_of (endpoint_dic g) (fst endpoint_it) = Some (snd endpoint_it)"
    by simp
  with p have "map_of (endpoint_dic g) (fst endpoint_it) = Some (from, to)"
    by simp
  from remove_arc_private_well_formed [OF assms this] Some show ?thesis
    by (auto simp: remove_arc_from_to_def)
qed

lemma delete_arcs_well_formed:
  assumes "well_formed g" and "distinct arcs" and "set arcs \<subseteq> set (stored_arc g)"
  shows "\<exists>g'. delete_arcs node arcs g = (False, g') \<and> well_formed g' \<and>
           stored_node g' = stored_node g \<and>
           set (stored_arc g') \<subseteq> set (stored_arc g) \<and>
           (\<forall>a ft. map_of (endpoint_dic g') a = Some ft \<longrightarrow>
              map_of (endpoint_dic g) a = Some ft) \<and>
           (\<forall>a f t. a \<in> set arcs \<longrightarrow> map_of (endpoint_dic g') a = Some (f, t) \<longrightarrow>
              f \<noteq> node \<and> t \<noteq> node)"
  using assms
proof (induction arcs arbitrary: g)
  case Nil
  then show ?case by simp
next
  case (Cons x xs)
  from Cons.prems have wf: "well_formed g" and dxs: "distinct xs" and x_xs: "x \<notin> set xs"
    and x_in: "x \<in> set (stored_arc g)" and xs_in: "set xs \<subseteq> set (stored_arc g)"
    by simp_all
  from wf have "dom (map_of (endpoint_dic g)) = set (stored_arc g)"
    and d_arc: "distinct (stored_arc g)"
    by (simp_all add: well_formed_maps consistent_maps_def)
  with x_in obtain "from" to where e: "map_of (endpoint_dic g) x = Some (from, to)"
    by fastforce
  show ?case
  proof (cases "from = node \<or> to = node")
    case True
    from remove_arc_well_formed [OF wf e] obtain g1 where
      r: "remove_arc g x = (True, g1)" and wf1: "well_formed g1" and
      n1: "stored_node g1 = stored_node g" and
      a1: "stored_arc g1 = remove1 x (stored_arc g)" and
      e1: "endpoint_dic g1 = AList.delete x (endpoint_dic g)"
      by blast
    from a1 d_arc xs_in x_xs have "set xs \<subseteq> set (stored_arc g1)"
      by (auto simp: set_remove1_eq)
    from Cons.IH [OF wf1 dxs this] obtain g' where
      d: "delete_arcs node xs g1 = (False, g')" and wf': "well_formed g'" and
      n': "stored_node g' = stored_node g1" and
      a': "set (stored_arc g') \<subseteq> set (stored_arc g1)" and
      mono: "\<forall>a ft. map_of (endpoint_dic g') a = Some ft \<longrightarrow>
              map_of (endpoint_dic g1) a = Some ft" and
      gone: "\<forall>a f t. a \<in> set xs \<longrightarrow> map_of (endpoint_dic g') a = Some (f, t) \<longrightarrow>
              f \<noteq> node \<and> t \<noteq> node"
      by blast
    have m1: "map_of (endpoint_dic g1) a = Some ft \<Longrightarrow>
        a \<noteq> x \<and> map_of (endpoint_dic g) a = Some ft" for a ft
      unfolding e1 by (simp add: delete_conv' split: if_splits)
    have 1: "delete_arcs node (x # xs) g = (False, g')"
      using e True r d by simp
    have 2: "set (stored_arc g') \<subseteq> set (stored_arc g)"
      using a' a1 set_remove1_subset [of x "stored_arc g"] by auto
    have 3: "\<forall>a ft. map_of (endpoint_dic g') a = Some ft \<longrightarrow>
              map_of (endpoint_dic g) a = Some ft"
      using mono m1 by blast
    have 4: "\<forall>a f t. a \<in> set (x # xs) \<longrightarrow> map_of (endpoint_dic g') a = Some (f, t) \<longrightarrow>
              f \<noteq> node \<and> t \<noteq> node"
    proof (intro allI impI)
      fix a f t
      assume a: "a \<in> set (x # xs)" and ea: "map_of (endpoint_dic g') a = Some (f, t)"
      from ea mono m1 have "a \<noteq> x" by blast
      with a have "a \<in> set xs" by simp
      with gone ea show "f \<noteq> node \<and> t \<noteq> node" by blast
    qed
    from 1 wf' n' n1 2 3 4 show ?thesis by simp
  next
    case False
    from Cons.IH [OF wf dxs xs_in] obtain g' where
      d: "delete_arcs node xs g = (False, g')" and wf': "well_formed g'" and
      n': "stored_node g' = stored_node g" and
      a': "set (stored_arc g') \<subseteq> set (stored_arc g)" and
      mono: "\<forall>a ft. map_of (endpoint_dic g') a = Some ft \<longrightarrow>
              map_of (endpoint_dic g) a = Some ft" and
      gone: "\<forall>a f t. a \<in> set xs \<longrightarrow> map_of (endpoint_dic g') a = Some (f, t) \<longrightarrow>
              f \<noteq> node \<and> t \<noteq> node"
      by blast
    have 1: "delete_arcs node (x # xs) g = (False, g')"
      using e False d by simp
    have 4: "\<forall>a f t. a \<in> set (x # xs) \<longrightarrow> map_of (endpoint_dic g') a = Some (f, t) \<longrightarrow>
              f \<noteq> node \<and> t \<noteq> node"
    proof (intro allI impI)
      fix a f t
      assume a: "a \<in> set (x # xs)" and ea: "map_of (endpoint_dic g') a = Some (f, t)"
      show "f \<noteq> node \<and> t \<noteq> node"
      proof (cases "a = x")
        case True
        with ea mono have "map_of (endpoint_dic g) x = Some (f, t)" by blast
        with e False show ?thesis by simp
      next
        case False
        with a have "a \<in> set xs" by simp
        with gone ea show ?thesis by blast
      qed
    qed
    from 1 wf' n' a' mono 4 show ?thesis by simp
  qed
qed

lemma remove_node_well_formed:
  assumes wf: "well_formed g" and n: "node \<in> set (stored_node g)"
  shows "\<exists>g'. remove_node g node = (True, g') \<and> well_formed g' \<and>
           set (stored_arc g') \<subseteq> set (stored_arc g) \<and>
           (\<forall>a ft. map_of (endpoint_dic g') a = Some ft \<longrightarrow>
              map_of (endpoint_dic g) a = Some ft) \<and>
           (\<forall>a f t. map_of (endpoint_dic g') a = Some (f, t) \<longrightarrow> f \<noteq> node \<and> t \<noteq> node)"
proof -
  from n obtain it where it: "rfind_pos node (stored_node g) = Some it"
    using rfind_pos_Some_ex by fastforce
  from wf have d_arc: "distinct (stored_arc g)"
    by (simp add: well_formed_maps consistent_maps_def)
  from delete_arcs_well_formed [OF wf d_arc subset_refl, of node] obtain g1 where
    d: "delete_arcs node (stored_arc g) g = (False, g1)" and wf1: "well_formed g1" and
    a1: "set (stored_arc g1) \<subseteq> set (stored_arc g)" and
    mono: "\<forall>a ft. map_of (endpoint_dic g1) a = Some ft \<longrightarrow>
              map_of (endpoint_dic g) a = Some ft" and
    gone: "\<forall>a f t. a \<in> set (stored_arc g) \<longrightarrow> map_of (endpoint_dic g1) a = Some (f, t) \<longrightarrow>
              f \<noteq> node \<and> t \<noteq> node"
    by blast
  from wf1 have dA: "distinct (map fst (adjacency g1))"
    and dE: "distinct (map fst (endpoint_dic g1))"
    and c1: "consistent_maps (stored_arc g1) (map_of (endpoint_dic g1)) (map_of (adjacency g1))"
    by (simp_all add: well_formed_maps)
  have away: "\<forall>a f t. map_of (endpoint_dic g1) a = Some (f, t) \<longrightarrow> f \<noteq> node \<and> t \<noteq> node"
  proof (intro allI impI)
    fix a f t
    assume ea: "map_of (endpoint_dic g1) a = Some (f, t)"
    with c1 have "a \<in> set (stored_arc g1)" unfolding consistent_maps_def by blast
    with a1 gone ea show "f \<noteq> node \<and> t \<noteq> node" by blast
  qed
  then have "\<forall>a f t. map_of (endpoint_dic g1) a = Some (f, t) \<longrightarrow> f \<noteq> node" by blast
  from consistent_maps_remove_node [OF c1 this]
  have c2: "consistent_maps (stored_arc g1) (map_of (endpoint_dic g1))
              ((map_of (adjacency g1))(node := None))" .
  let ?g' = "g1\<lparr>adjacency := AList.delete node (adjacency g1),
                 stored_node := erase_at it (stored_node g1)\<rparr>"
  have r: "remove_node g node = (True, ?g')"
    using it d by (simp add: remove_node_def Let_def)
  have "well_formed ?g'"
    unfolding well_formed_maps using dA dE c2
    by (simp add: distinct_delete delete_conv')
  with r a1 mono away show ?thesis by simp
qed

lemma remove_node_keeps_well_formed:
  assumes "well_formed g"
  shows "well_formed (snd (remove_node g node))"
proof (cases "node \<in> set (stored_node g)")
  case True
  from remove_node_well_formed [OF assms True] show ?thesis by auto
next
  case False
  then have "rfind_pos node (stored_node g) = None" by (simp add: rfind_pos_None)
  with assms show ?thesis by (simp add: remove_node_def)
qed

subsection \<open>Admissible calls keep consistency\<close>

lemma well_formed_empty_graph: "well_formed empty_graph"
  by (simp add: well_formed_def arcs_indexed_def empty_graph_def)

lemma add_node_no_fault:
  "add_node no_fault g node =
     (Inr node, g\<lparr>stored_node := stored_node g @ [node],
                  adjacency := AList.update node [] (adjacency g)\<rparr>)"
  by (simp add: add_node_def no_fault_def Let_def)

lemma add_arc_no_fault:
  "add_arc no_fault g arc from to =
     (Inr arc,
      g\<lparr>stored_arc := stored_arc g @ [arc],
        endpoint_dic := AList.update arc (from, to) (endpoint_dic g),
        adjacency :=
          AList.update from
            ((case map_of (adjacency g) from of None \<Rightarrow> [] | Some bucket \<Rightarrow> bucket) @ [(to, arc)])
            (adjacency g)\<rparr>)"
  by (simp add: add_arc_def bucket_push_back_def no_fault_def Let_def split: option.splits)

lemma well_formed_no_source_bucket:
  assumes wf: "well_formed g" and n: "\<forall>arc \<in> set (all_arc g). source g arc \<noteq> node"
  shows "map_of (adjacency g) node = None \<or> map_of (adjacency g) node = Some []"
proof (cases "map_of (adjacency g) node")
  case None
  then show ?thesis by simp
next
  case (Some bucket)
  from wf have c: "consistent_maps (stored_arc g) (map_of (endpoint_dic g)) (map_of (adjacency g))"
    by (simp add: well_formed_maps)
  have "bucket = []"
  proof (cases bucket)
    case Nil
    then show ?thesis .
  next
    case (Cons adjacent rest)
    obtain t a where "adjacent = (t, a)" by (cases adjacent)
    with Cons have "(t, a) \<in> set bucket" by simp
    with c Some have e: "map_of (endpoint_dic g) a = Some (node, t)"
      unfolding consistent_maps_def by blast
    with c have "a \<in> set (stored_arc g)" unfolding consistent_maps_def by blast
    with n have "source g a \<noteq> node" by (simp add: all_arc_def)
    with e show ?thesis by (simp add: source_def)
  qed
  with Some show ?thesis by simp
qed

lemma add_node_well_formed:
  assumes wf: "well_formed g" and n: "\<forall>arc \<in> set (all_arc g). source g arc \<noteq> node"
  shows "well_formed (snd (add_node no_fault g node))"
proof -
  from wf have dA: "distinct (map fst (adjacency g))" and dE: "distinct (map fst (endpoint_dic g))"
    and c: "consistent_maps (stored_arc g) (map_of (endpoint_dic g)) (map_of (adjacency g))"
    by (simp_all add: well_formed_maps)
  from consistent_maps_add_node [OF c well_formed_no_source_bucket [OF wf n]] dA dE
  show ?thesis
    by (simp add: add_node_no_fault well_formed_maps distinct_update update_conv')
qed

lemma add_arc_well_formed:
  assumes wf: "well_formed g" and a: "arc \<notin> set (all_arc g)"
  shows "well_formed (snd (add_arc no_fault g arc from to))"
proof -
  from wf have dA: "distinct (map fst (adjacency g))" and dE: "distinct (map fst (endpoint_dic g))"
    and c: "consistent_maps (stored_arc g) (map_of (endpoint_dic g)) (map_of (adjacency g))"
    by (simp_all add: well_formed_maps)
  from a have a': "arc \<notin> set (stored_arc g)" by (simp add: all_arc_def)
  from consistent_maps_add_arc [OF c a' refl, of "from" to] dA dE show ?thesis
    by (simp add: add_arc_no_fault well_formed_maps distinct_update update_conv')
qed

lemma snd_exec_AddArc: "snd (exec (AddArc arc from to) g) = snd (add_arc no_fault g arc from to)"
  by (cases "add_arc no_fault g arc from to") (simp split: sum.splits)

lemma snd_exec_AddNode: "snd (exec (AddNode node) g) = snd (add_node no_fault g node)"
  by (simp add: add_node_no_fault)

lemma exec_well_formed:
  assumes "well_formed g" and "admissible g c"
  shows "well_formed (snd (exec c g))"
proof (cases c)
  case (AddNode node)
  with assms(2) have "\<forall>arc \<in> set (all_arc g). source g arc \<noteq> node" by simp
  from add_node_well_formed [OF assms(1) this] show ?thesis
    unfolding AddNode snd_exec_AddNode .
next
  case (AddArc arc "from" to)
  with assms(2) have "arc \<notin> set (all_arc g)" by simp
  from add_arc_well_formed [OF assms(1) this] show ?thesis
    unfolding AddArc snd_exec_AddArc .
next
  case (RemoveNode node)
  with assms remove_node_keeps_well_formed show ?thesis by simp
next
  case (RemoveArc arc)
  with assms remove_arc_keeps_well_formed show ?thesis by simp
next
  case (RemoveArcFromTo "from" to)
  with assms remove_arc_from_to_keeps_well_formed show ?thesis by simp
qed

lemma run_Cons_Some:
  assumes "run (c # cs) g = Some g'"
  shows "fst (exec c g) \<and> run cs (snd (exec c g)) = Some g'"
  using assms by (cases "exec c g") (auto split: bool.splits)

lemma admissible_well_formed:
  assumes "well_formed g" and "follows admissible cs g" and "run cs g = Some g'"
  shows "well_formed g'"
  using assms
proof (induction cs arbitrary: g)
  case Nil
  then show ?case by simp
next
  case (Cons c cs)
  from Cons.prems(2) have ad: "admissible g c" and di: "follows admissible cs (snd (exec c g))"
    by simp_all
  from run_Cons_Some [OF Cons.prems(3)] have "run cs (snd (exec c g)) = Some g'" by simp
  from Cons.IH [OF exec_well_formed [OF Cons.prems(1) ad] di this] show ?case .
qed

lemma filter_unique_key:
  assumes "distinct (map fst xs)" and "(k, v) \<in> set xs" and "P (k, v)"
    and "\<forall>kv \<in> set xs. P kv \<longrightarrow> fst kv = k"
  shows "map fst (filter P xs) = [k]"
  using assms
proof (induction xs)
  case Nil
  then show ?case by simp
next
  case (Cons y ys)
  show ?case
  proof (cases "y = (k, v)")
    case True
    with Cons.prems(1) have "k \<notin> fst ` set ys" by simp
    have "\<forall>kv \<in> set ys. \<not> P kv"
    proof (intro ballI notI)
      fix kv
      assume kv: "kv \<in> set ys" and "P kv"
      with Cons.prems(4) have "fst kv = k" by simp
      with kv have "k \<in> fst ` set ys" by (metis imageI)
      with \<open>k \<notin> fst ` set ys\<close> show False by simp
    qed
    then have "filter P ys = []" by (simp add: filter_empty_conv)
    with True Cons.prems(3) show ?thesis by simp
  next
    case False
    with Cons.prems(2) have in_ys: "(k, v) \<in> set ys" by simp
    then have "k \<in> fst ` set ys" by force
    with Cons.prems(1) have "fst y \<noteq> k" by auto
    with Cons.prems(4) have "\<not> P y" by auto
    moreover from Cons.IH [OF _ in_ys Cons.prems(3)] Cons.prems(1,4)
    have "map fst (filter P ys) = [k]" by simp
    ultimately show ?thesis by simp
  qed
qed

lemma well_formed_endpoint_consistent:
  assumes wf: "well_formed g"
  shows "endpoint_consistent g arc"
proof -
  from wf have dA: "distinct (map fst (adjacency g))" and dE: "distinct (map fst (endpoint_dic g))"
    and c: "consistent_maps (stored_arc g) (map_of (endpoint_dic g)) (map_of (adjacency g))"
    by (simp_all add: well_formed_maps)
  from c have dom: "arc \<in> set (stored_arc g) \<longleftrightarrow> map_of (endpoint_dic g) arc \<noteq> None"
    unfolding consistent_maps_def by blast
  have holder: "map_of (endpoint_dic g) arc = Some (fst kv, t)"
    if "kv \<in> set (adjacency g)" and "(t, arc) \<in> set (snd kv)" for kv t
  proof -
    from that(1) dA have "map_of (adjacency g) (fst kv) = Some (snd kv)" by simp
    with c that(2) show ?thesis unfolding consistent_maps_def by blast
  qed
  show ?thesis
  proof (cases "map_of (endpoint_dic g) arc")
    case None
    have "\<forall>kv \<in> set (adjacency g). \<not> arc \<in> snd ` set (snd kv)"
    proof (intro ballI notI)
      fix kv
      assume "kv \<in> set (adjacency g)" and "arc \<in> snd ` set (snd kv)"
      then obtain t where "(t, arc) \<in> set (snd kv)" by force
      from holder [OF \<open>kv \<in> set (adjacency g)\<close> this] None show False by simp
    qed
    then have "buckets_of g arc = []" by (simp add: buckets_of_def filter_empty_conv)
    with None dom show ?thesis by (simp add: endpoint_consistent_def)
  next
    case (Some endpoint)
    obtain f t where ft: "endpoint = (f, t)" by (cases endpoint)
    from c Some ft obtain b where b: "map_of (adjacency g) f = Some b" "(t, arc) \<in> set b"
      unfolding consistent_maps_def by blast
    from b(1) have m: "(f, b) \<in> set (adjacency g)" by (rule map_of_SomeD)
    from b(2) have p: "arc \<in> snd ` set (snd (f, b))" by force
    have u: "\<forall>kv \<in> set (adjacency g). arc \<in> snd ` set (snd kv) \<longrightarrow> fst kv = f"
    proof (intro ballI impI)
      fix kv
      assume kv: "kv \<in> set (adjacency g)" and "arc \<in> snd ` set (snd kv)"
      then obtain t' where "(t', arc) \<in> set (snd kv)" by force
      from holder [OF kv this] Some ft show "fst kv = f" by simp
    qed
    from filter_unique_key [OF dA m, of "\<lambda>kv. arc \<in> snd ` set (snd kv)", OF p u]
    have "buckets_of g arc = [f]" by (simp add: buckets_of_def)
    with Some ft dom show ?thesis by (simp add: endpoint_consistent_def)
  qed
qed

lemma run_one_arc_graph:
  "run [AddNode (NodePtr 1), AddArc (ArcPtr 1) (NodePtr 1) (NodePtr 2)] empty_graph =
     Some one_arc_graph"
  by (simp add: add_arc_def add_node_def bucket_push_back_def no_fault_def Let_def
      empty_graph_def one_arc_graph_def)

text \<open>
  C1, as the code has it. After every sequence of successful calls in which
  \<^verbatim>\<open>add_node\<close> is never given a node that is the source of an arc of \<^verbatim>\<open>all_arc()\<close>
  and \<^verbatim>\<open>add_arc\<close> is never given an arc that is in \<^verbatim>\<open>all_arc()\<close>, the first
  invariant holds for every arc: the arc is in the arc list iff it has an endpoint
  entry, iff exactly one bucket holds it, the bucket of its source.
\<close>

theorem admissible_endpoint_consistent:
  assumes "follows admissible cs empty_graph" and "run cs empty_graph = Some g"
  shows "endpoint_consistent g arc"
  using well_formed_endpoint_consistent
    [OF admissible_well_formed [OF well_formed_empty_graph assms]] .

theorem admissible_endpoint_consistent_witness:
  "follows admissible [AddNode (NodePtr 1), AddArc (ArcPtr 1) (NodePtr 1) (NodePtr 2)] empty_graph \<and>
   run [AddNode (NodePtr 1), AddArc (ArcPtr 1) (NodePtr 1) (NodePtr 2)] empty_graph =
     Some one_arc_graph \<and>
   endpoint_consistent one_arc_graph (ArcPtr 1)"
proof -
  have d: "follows admissible [AddNode (NodePtr 1), AddArc (ArcPtr 1) (NodePtr 1) (NodePtr 2)]
      empty_graph"
    by (simp add: add_node_def no_fault_def Let_def empty_graph_def all_arc_def)
  from admissible_endpoint_consistent [OF d run_one_arc_graph] d run_one_arc_graph
  show ?thesis by simp
qed

text \<open>
  C1 as stated fails: three successful calls, the third registering node 1 again.
  \<^verbatim>\<open>adjacency_[node].clear()\<close> empties the bucket of node 1, and arc 1 is left in the
  arc list and in the endpoint index but in no bucket.
\<close>

theorem reregistered_node_breaks_consistency:
  "run [AddNode (NodePtr 1), AddArc (ArcPtr 1) (NodePtr 1) (NodePtr 2), AddNode (NodePtr 1)]
     empty_graph = Some reregistered_node_graph \<and>
   \<not> endpoint_consistent reregistered_node_graph (ArcPtr 1)"
  by (simp add: add_arc_def add_node_def bucket_push_back_def no_fault_def Let_def
      empty_graph_def reregistered_node_graph_def endpoint_consistent_def buckets_of_def)

text \<open>
  The condition on \<^verbatim>\<open>add_arc\<close> is needed as well: after arc 1 was registered twice
  and removed once, it is in the arc list and in a bucket without an endpoint
  entry.
\<close>

lemma reregistered_arc_breaks_consistency:
  "run [AddNode (NodePtr 1), AddArc (ArcPtr 1) (NodePtr 1) (NodePtr 2),
        AddArc (ArcPtr 1) (NodePtr 1) (NodePtr 2), RemoveArc (ArcPtr 1)]
     empty_graph =
     Some \<lparr>stored_node = [NodePtr 1], stored_arc = [ArcPtr 1], endpoint_dic = [],
           adjacency = [(NodePtr 1, [(NodePtr 2, ArcPtr 1)])]\<rparr> \<and>
   \<not> endpoint_consistent
        \<lparr>stored_node = [NodePtr 1], stored_arc = [ArcPtr 1], endpoint_dic = [],
         adjacency = [(NodePtr 1, [(NodePtr 2, ArcPtr 1)])]\<rparr> (ArcPtr 1)"
  by (simp add: add_arc_def add_node_def bucket_push_back_def no_fault_def Let_def
      remove_arc_def remove_arc_private_def rfind_pos_def erase_at_def
      erase_stored_arc_def erase_endpoint_def erase_adjacency_entry_def
      empty_graph_def endpoint_consistent_def buckets_of_def)

subsection \<open>What a successful removal has done\<close>

text \<open>
  What a removal that returns \<^verbatim>\<open>true\<close> has done to the arc list and to the endpoint
  index, in any state of the object.
\<close>

lemma remove_arc_private_true_effect:
  assumes "remove_arc_private g arc from to = (True, g')"
  shows "endpoint_dic g' = AList.delete arc (endpoint_dic g) \<and>
         (\<exists>pre post. stored_arc g = pre @ arc # post \<and> stored_arc g' = pre @ post)"
proof -
  from remove_arc_private_erases_last [OF assms] have
    "\<exists>pre post. stored_arc g = pre @ arc # post \<and> stored_arc g' = pre @ post" by blast
  moreover from assms have "endpoint_dic g' = AList.delete arc (endpoint_dic g)"
    by (auto simp: remove_arc_private_def erase_stored_arc_def erase_endpoint_def
        erase_adjacency_entry_def split: option.splits)
  ultimately show ?thesis by blast
qed

lemma remove_arc_true_effect:
  assumes "remove_arc g arc = (True, g')"
  shows "endpoint_dic g' = AList.delete arc (endpoint_dic g) \<and>
         (\<exists>pre post. stored_arc g = pre @ arc # post \<and> stored_arc g' = pre @ post)"
proof (cases "map_of (endpoint_dic g) arc")
  case None
  with assms show ?thesis by (simp add: remove_arc_def)
next
  case (Some endpoint)
  obtain "from" to where "endpoint = (from, to)" by (cases endpoint)
  with Some assms have "remove_arc_private g arc from to = (True, g')"
    by (simp add: remove_arc_def)
  then show ?thesis by (rule remove_arc_private_true_effect)
qed

lemma remove_arc_private_false_unchanged:
  "remove_arc_private g arc from to = (False, g') \<Longrightarrow> g' = g"
  by (simp add: remove_arc_private_def split: option.splits)

lemma remove_arc_false_unchanged: "remove_arc g arc = (False, g') \<Longrightarrow> g' = g"
  by (auto simp: remove_arc_def dest: remove_arc_private_false_unchanged split: option.splits)

lemma delete_arcs_step:
  assumes "delete_arcs node (x # xs) g = (False, g')"
  obtains (incident) "from" to g1 where "map_of (endpoint_dic g) x = Some (from, to)"
      "from = node \<or> to = node" "remove_arc g x = (True, g1)"
      "delete_arcs node xs g1 = (False, g')"
    | (other) "from" to where "map_of (endpoint_dic g) x = Some (from, to)"
      "\<not> (from = node \<or> to = node)" "delete_arcs node xs g = (False, g')"
proof (cases "map_of (endpoint_dic g) x")
  case None
  with assms show ?thesis by simp
next
  case (Some endpoint)
  obtain "from" to where e: "endpoint = (from, to)" by (cases endpoint)
  show ?thesis
  proof (cases "from = node \<or> to = node")
    case True
    obtain ok g1 where r: "remove_arc g x = (ok, g1)" by (cases "remove_arc g x")
    have "ok"
    proof (rule ccontr)
      assume "\<not> ok"
      with assms Some e True r show False by simp
    qed
    with assms Some e True r have "delete_arcs node xs g1 = (False, g')" by simp
    with \<open>ok\<close> have "ok" and "delete_arcs node xs g1 = (False, g')" by simp_all
    with Some e True r incident show ?thesis by simp
  next
    case False
    with assms Some e have "delete_arcs node xs g = (False, g')" by simp
    with Some e False other show ?thesis by simp
  qed
qed

lemma delete_arcs_needs_endpoints:
  assumes "delete_arcs node arcs g = (False, g')"
  shows "\<forall>x \<in> set arcs. map_of (endpoint_dic g) x \<noteq> None"
  using assms
proof (induction arcs arbitrary: g)
  case Nil
  show ?case by simp
next
  case (Cons x xs)
  from Cons.prems show ?case
  proof (cases rule: delete_arcs_step)
    case (incident "from" to g1)
    from remove_arc_true_effect [OF incident(3)]
    have "endpoint_dic g1 = AList.delete x (endpoint_dic g)" by simp
    then have "map_of (endpoint_dic g1) y \<noteq> None \<Longrightarrow> map_of (endpoint_dic g) y \<noteq> None" for y
      by (simp add: delete_conv' split: if_splits)
    with Cons.IH [OF incident(4)] incident(1) show ?thesis by auto
  next
    case (other "from" to)
    with Cons.IH [OF other(3)] show ?thesis by auto
  qed
qed

lemma delete_arcs_stored_arc_subset:
  "set (stored_arc (snd (delete_arcs node arcs g))) \<subseteq> set (stored_arc g)"
proof (induction arcs arbitrary: g)
  case Nil
  show ?case by simp
next
  case (Cons x xs)
  show ?case
  proof (cases "map_of (endpoint_dic g) x")
    case None
    then show ?thesis by simp
  next
    case (Some endpoint)
    obtain "from" to where e: "endpoint = (from, to)" by (cases endpoint)
    obtain ok g1 where r: "remove_arc g x = (ok, g1)" by (cases "remove_arc g x")
    have s: "set (stored_arc g1) \<subseteq> set (stored_arc g)"
    proof (cases ok)
      case True
      with r remove_arc_true_effect [of g x g1] show ?thesis by auto
    next
      case False
      with r have "remove_arc g x = (False, g1)" by simp
      then have "g1 = g" by (rule remove_arc_false_unchanged)
      then show ?thesis by simp
    qed
    show ?thesis
    proof (cases "from = node \<or> to = node")
      case True
      with Some e r s Cons.IH [of g1] show ?thesis by (cases ok) auto
    next
      case False
      with Some e Cons.IH [of g] show ?thesis by simp
    qed
  qed
qed

lemma delete_arcs_removes_incident:
  assumes "delete_arcs node arcs g = (False, g')"
    and "\<forall>a f t. map_of (endpoint_dic g) a = Some (f, t) \<and> (f = node \<or> t = node) \<longrightarrow>
           count_list (stored_arc g) a \<le> count_list arcs a"
  shows "\<forall>a f t. map_of (endpoint_dic g) a = Some (f, t) \<and> (f = node \<or> t = node) \<longrightarrow>
           a \<notin> set (stored_arc g')"
  using assms
proof (induction arcs arbitrary: g)
  case Nil
  then have "g' = g" by simp
  with Nil.prems(2) show ?case by (auto simp: count_list_0_iff)
next
  case (Cons x xs)
  from Cons.prems(1) show ?case
  proof (cases rule: delete_arcs_step)
    case (incident "from" to g1)
    from remove_arc_true_effect [OF incident(3)] obtain pre post where
      e1: "endpoint_dic g1 = AList.delete x (endpoint_dic g)" and
      a: "stored_arc g = pre @ x # post" and a1: "stored_arc g1 = pre @ post"
      by blast
    have m1: "map_of (endpoint_dic g1) a = (if a = x then None else map_of (endpoint_dic g) a)" for a
      unfolding e1 by (simp add: delete_conv')
    have c1: "count_list (stored_arc g) a = count_list (stored_arc g1) a + (if a = x then 1 else 0)"
      for a
      unfolding a a1 by simp
    have pre1: "\<forall>a f t. map_of (endpoint_dic g1) a = Some (f, t) \<and> (f = node \<or> t = node) \<longrightarrow>
           count_list (stored_arc g1) a \<le> count_list xs a"
    proof (intro allI impI)
      fix a f t
      assume h: "map_of (endpoint_dic g1) a = Some (f, t) \<and> (f = node \<or> t = node)"
      with m1 [of a] have ne: "a \<noteq> x" and "map_of (endpoint_dic g) a = Some (f, t)"
        by (auto split: if_splits)
      with h Cons.prems(2) have "count_list (stored_arc g) a \<le> count_list (x # xs) a" by blast
      with ne c1 [of a] show "count_list (stored_arc g1) a \<le> count_list xs a" by simp
    qed
    from Cons.IH [OF incident(4) pre1]
    have ih: "\<forall>a f t. map_of (endpoint_dic g1) a = Some (f, t) \<and> (f = node \<or> t = node) \<longrightarrow>
           a \<notin> set (stored_arc g')" .
    from delete_arcs_needs_endpoints [OF incident(4)] m1 [of x] have "x \<notin> set xs" by auto
    then have "count_list (x # xs) x = 1" by (simp add: count_list_0_iff)
    moreover from Cons.prems(2) incident(1,2)
    have "count_list (stored_arc g) x \<le> count_list (x # xs) x" by blast
    ultimately have "count_list (stored_arc g1) x = 0" using c1 [of x] by simp
    then have "x \<notin> set (stored_arc g1)" by (simp add: count_list_0_iff)
    moreover from delete_arcs_stored_arc_subset [of node xs g1] incident(4)
    have "set (stored_arc g') \<subseteq> set (stored_arc g1)" by simp
    ultimately have x_gone: "x \<notin> set (stored_arc g')" by blast
    show ?thesis
    proof (intro allI impI)
      fix a f t
      assume h: "map_of (endpoint_dic g) a = Some (f, t) \<and> (f = node \<or> t = node)"
      show "a \<notin> set (stored_arc g')"
      proof (cases "a = x")
        case True
        with x_gone show ?thesis by simp
      next
        case False
        with h m1 [of a] ih show ?thesis by auto
      qed
    qed
  next
    case (other "from" to)
    have pre: "\<forall>a f t. map_of (endpoint_dic g) a = Some (f, t) \<and> (f = node \<or> t = node) \<longrightarrow>
           count_list (stored_arc g) a \<le> count_list xs a"
    proof (intro allI impI)
      fix a f t
      assume h: "map_of (endpoint_dic g) a = Some (f, t) \<and> (f = node \<or> t = node)"
      with other(1,2) have ne: "a \<noteq> x" by auto
      from h Cons.prems(2) have "count_list (stored_arc g) a \<le> count_list (x # xs) a" by blast
      with ne show "count_list (stored_arc g) a \<le> count_list xs a" by simp
    qed
    from Cons.IH [OF other(3) pre] show ?thesis .
  qed
qed

lemma remove_node_true_removes_incident_arcs:
  assumes "remove_node g node = (True, g')" and "distinct (map fst (endpoint_dic g))"
  shows "\<forall>arc \<in> set (incident_arcs g node). arc \<notin> set (all_arc g')"
proof
  fix arc
  assume "arc \<in> set (incident_arcs g node)"
  then obtain elem where "elem \<in> set (endpoint_dic g)" "fst elem = arc"
    and inc: "fst (snd elem) = node \<or> snd (snd elem) = node"
    by (auto simp: incident_arcs_def)
  with assms(2) have e: "map_of (endpoint_dic g) arc = Some (fst (snd elem), snd (snd elem))"
    by auto
  obtain it where it: "rfind_pos node (stored_node g) = Some it"
    using assms(1) by (cases "rfind_pos node (stored_node g)") (simp_all add: remove_node_def)
  obtain is_error g1 where d: "delete_arcs node (stored_arc g) g = (is_error, g1)"
    by (cases "delete_arcs node (stored_arc g) g")
  have ne: "\<not> is_error"
  proof
    assume is_error
    with assms(1) it d show False by (simp add: remove_node_def Let_def)
  qed
  with assms(1) it d have g': "stored_arc g' = stored_arc g1"
    by (auto simp: remove_node_def Let_def)
  from d ne have "delete_arcs node (stored_arc g) g = (False, g1)" by simp
  from delete_arcs_removes_incident [OF this] e inc have "arc \<notin> set (stored_arc g1)"
    by blast
  with g' show "arc \<notin> set (all_arc g')" by (simp add: all_arc_def)
qed

subsection \<open>Registering a node and removing it again\<close>

lemma snoc_last_occurrence:
  assumes "ns @ [node] = pre @ node # post" and "node \<notin> set post"
  shows "post = [] \<and> pre = ns"
proof (cases post rule: rev_cases)
  case Nil
  with assms(1) show ?thesis by simp
next
  case (snoc ys y)
  with assms(1) have "ns @ [node] = (pre @ node # ys) @ [y]" by simp
  then have "y = node" by (simp only: append1_eq_conv)
  with snoc assms(2) show ?thesis by simp
qed

text \<open>
  C4, as the code has it. In a consistent state (\<open>well_formed\<close>), for a node that
  is not in the node list and is the source of no arc of \<^verbatim>\<open>all_arc()\<close>,
  \<^verbatim>\<open>add_node(n)\<close> followed by \<^verbatim>\<open>remove_node(n)\<close> returns \<^verbatim>\<open>true\<close> from
  \<^verbatim>\<open>remove_node\<close>, and afterwards \<^verbatim>\<open>all_node()\<close> does not contain \<open>n\<close>: it is the
  sequence it was before the two calls.
\<close>

theorem add_then_remove_node:
  assumes wf: "well_formed g" and n: "node \<notin> set (all_node g)"
    and s: "\<forall>arc \<in> set (all_arc g). source g arc \<noteq> node"
  shows "fst (add_node no_fault g node) = Inr node \<and>
         fst (remove_node (snd (add_node no_fault g node)) node) \<and>
         node \<notin> set (all_node (snd (remove_node (snd (add_node no_fault g node)) node))) \<and>
         all_node (snd (remove_node (snd (add_node no_fault g node)) node)) = all_node g"
proof -
  let ?g1 = "snd (add_node no_fault g node)"
  from add_node_well_formed [OF wf s] have wf1: "well_formed ?g1" .
  have s1: "stored_node ?g1 = stored_node g @ [node]" by (simp add: add_node_no_fault)
  then have "node \<in> set (stored_node ?g1)" by simp
  from remove_node_well_formed [OF wf1 this] obtain g2 where
    r: "remove_node ?g1 node = (True, g2)" by blast
  from remove_node_erases_last [OF r] s1 obtain pre post where
    "stored_node g @ [node] = pre @ node # post" "node \<notin> set post"
    "stored_node g2 = pre @ post"
    by auto
  with snoc_last_occurrence [of "stored_node g" node pre post]
  have "stored_node g2 = stored_node g" by simp
  with r n show ?thesis by (simp add: all_node_def add_node_no_fault)
qed

theorem add_then_remove_node_witness:
  "well_formed one_arc_graph \<and> NodePtr 2 \<notin> set (all_node one_arc_graph) \<and>
   all_arc one_arc_graph = [ArcPtr 1] \<and> source one_arc_graph (ArcPtr 1) \<noteq> NodePtr 2 \<and>
   fst (add_node no_fault one_arc_graph (NodePtr 2)) = Inr (NodePtr 2) \<and>
   fst (remove_node (snd (add_node no_fault one_arc_graph (NodePtr 2))) (NodePtr 2)) \<and>
   NodePtr 2 \<notin> set (all_node
     (snd (remove_node (snd (add_node no_fault one_arc_graph (NodePtr 2))) (NodePtr 2)))) \<and>
   all_node (snd (remove_node (snd (add_node no_fault one_arc_graph (NodePtr 2))) (NodePtr 2))) =
     all_node one_arc_graph"
proof -
  have a: "well_formed one_arc_graph"
    by (simp add: well_formed_def arcs_indexed_def one_arc_graph_def)
  have b: "NodePtr 2 \<notin> set (all_node one_arc_graph)"
    by (simp add: all_node_def one_arc_graph_def)
  have c: "\<forall>arc \<in> set (all_arc one_arc_graph). source one_arc_graph arc \<noteq> NodePtr 2"
    by (simp add: all_arc_def source_def one_arc_graph_def)
  have d: "all_arc one_arc_graph = [ArcPtr 1]" "source one_arc_graph (ArcPtr 1) \<noteq> NodePtr 2"
    by (simp_all add: all_arc_def source_def one_arc_graph_def)
  from add_then_remove_node [OF a b c] a b d show ?thesis by blast
qed

text \<open>
  C4 as stated fails at two states. With node 1 registered already, the two calls
  leave the earlier entry: \<^verbatim>\<open>remove_node\<close> returns \<^verbatim>\<open>true\<close> and \<^verbatim>\<open>all_node()\<close> still
  contains node 1. After an arc was added from the unregistered node 1,
  \<^verbatim>\<open>add_node\<close> empties the bucket of node 1, the cascade of \<^verbatim>\<open>remove_node\<close> does not
  find the arc's pair there, and \<^verbatim>\<open>remove_node\<close> returns \<^verbatim>\<open>false\<close>.
\<close>

theorem add_then_remove_node_fails:
  "add_node no_fault one_node_graph (NodePtr 1) =
     (Inr (NodePtr 1), one_node_graph\<lparr>stored_node := [NodePtr 1, NodePtr 1]\<rparr>) \<and>
   remove_node (one_node_graph\<lparr>stored_node := [NodePtr 1, NodePtr 1]\<rparr>) (NodePtr 1) =
     (True, \<lparr>stored_node = [NodePtr 1], stored_arc = [], endpoint_dic = [], adjacency = []\<rparr>) \<and>
   NodePtr 1 \<in> set (all_node
     \<lparr>stored_node = [NodePtr 1], stored_arc = [], endpoint_dic = [], adjacency = []\<rparr>) \<and>
   run [AddArc (ArcPtr 1) (NodePtr 1) (NodePtr 2)] empty_graph = Some unregistered_source_graph \<and>
   NodePtr 1 \<notin> set (all_node unregistered_source_graph) \<and>
   add_node no_fault unregistered_source_graph (NodePtr 1) =
     (Inr (NodePtr 1), reregistered_node_graph\<lparr>stored_node := [NodePtr 1]\<rparr>) \<and>
   remove_node (reregistered_node_graph\<lparr>stored_node := [NodePtr 1]\<rparr>) (NodePtr 1) =
     (False, reregistered_node_graph\<lparr>stored_node := [NodePtr 1]\<rparr>)"
  by (simp add: add_node_def add_arc_def bucket_push_back_def no_fault_def Let_def
      remove_node_def remove_arc_def remove_arc_private_def rfind_pos_def erase_at_def
      one_node_graph_def unregistered_source_graph_def reregistered_node_graph_def
      empty_graph_def all_node_def)

subsection \<open>The cascade of the node removal\<close>

text \<open>
  C5, as the code has it. The endpoint index has one entry per arc, as every
  \<^verbatim>\<open>std::unordered_map\<close> has. Whenever \<^verbatim>\<open>remove_node(n)\<close> returns \<^verbatim>\<open>true\<close>, \<^verbatim>\<open>all_arc()\<close>
  afterwards contains no arc whose indexed source or target was \<open>n\<close>; and it
  returns \<^verbatim>\<open>true\<close> whenever \<open>n\<close> is in the node list and the state is consistent
  (\<open>well_formed\<close>).
\<close>

theorem remove_node_removes_incident_arcs:
  assumes "distinct (map fst (endpoint_dic g))"
  shows "(fst (remove_node g node) \<longrightarrow>
            (\<forall>arc \<in> set (incident_arcs g node).
               arc \<notin> set (all_arc (snd (remove_node g node))))) \<and>
         (well_formed g \<and> node \<in> set (all_node g) \<longrightarrow> fst (remove_node g node))"
proof (intro conjI impI)
  assume "fst (remove_node g node)"
  then have "remove_node g node = (True, snd (remove_node g node))"
    by (cases "remove_node g node") simp
  from remove_node_true_removes_incident_arcs [OF this assms]
  show "\<forall>arc \<in> set (incident_arcs g node). arc \<notin> set (all_arc (snd (remove_node g node)))" .
next
  assume "well_formed g \<and> node \<in> set (all_node g)"
  then have wf: "well_formed g" and "node \<in> set (stored_node g)"
    by (simp_all add: all_node_def)
  from remove_node_well_formed [OF this] show "fst (remove_node g node)" by auto
qed

theorem remove_node_removes_incident_arcs_witness:
  "distinct (map fst (endpoint_dic two_arc_graph)) \<and>
   well_formed two_arc_graph \<and> NodePtr 1 \<in> set (all_node two_arc_graph) \<and>
   fst (remove_node two_arc_graph (NodePtr 1)) \<and>
   incident_arcs two_arc_graph (NodePtr 1) = [ArcPtr 1, ArcPtr 2] \<and>
   ArcPtr 1 \<notin> set (all_arc (snd (remove_node two_arc_graph (NodePtr 1)))) \<and>
   ArcPtr 2 \<notin> set (all_arc (snd (remove_node two_arc_graph (NodePtr 1))))"
proof -
  have d: "distinct (map fst (endpoint_dic two_arc_graph))"
    by (simp add: two_arc_graph_def)
  have a: "well_formed two_arc_graph"
    by (simp add: well_formed_def arcs_indexed_def two_arc_graph_def)
  have b: "NodePtr 1 \<in> set (all_node two_arc_graph)"
    by (simp add: all_node_def two_arc_graph_def)
  have c: "incident_arcs two_arc_graph (NodePtr 1) = [ArcPtr 1, ArcPtr 2]"
    by (simp add: incident_arcs_def two_arc_graph_def)
  note t = remove_node_removes_incident_arcs [OF d, of "NodePtr 1"]
  from t a b have r: "fst (remove_node two_arc_graph (NodePtr 1))" by blast
  with t c have "\<forall>arc \<in> set [ArcPtr 1, ArcPtr 2].
      arc \<notin> set (all_arc (snd (remove_node two_arc_graph (NodePtr 1))))" by simp
  with d a b c r show ?thesis by simp
qed

text \<open>
  C5 as stated fails: after arc 1 was added twice from the registered node 1, the
  cascade removes arc 1 at its first occurrence in the copied arc list, finds no
  endpoint entry at the second, and \<^verbatim>\<open>remove_node\<close> restores the backup and returns
  \<^verbatim>\<open>false\<close>. Arc 1 is still in \<^verbatim>\<open>all_arc()\<close>.
\<close>

theorem remove_node_keeps_duplicate_arc:
  "run [AddNode (NodePtr 1), AddArc (ArcPtr 1) (NodePtr 1) (NodePtr 2),
        AddArc (ArcPtr 1) (NodePtr 1) (NodePtr 2)] empty_graph = Some duplicate_arc_graph \<and>
   NodePtr 1 \<in> set (all_node duplicate_arc_graph) \<and>
   ArcPtr 1 \<in> set (incident_arcs duplicate_arc_graph (NodePtr 1)) \<and>
   remove_node duplicate_arc_graph (NodePtr 1) = (False, duplicate_arc_graph) \<and>
   ArcPtr 1 \<in> set (all_arc duplicate_arc_graph)"
  by (simp add: add_node_def add_arc_def bucket_push_back_def no_fault_def Let_def
      remove_node_def remove_arc_def remove_arc_private_def rfind_pos_def erase_at_def
      erase_stored_arc_def erase_endpoint_def erase_adjacency_entry_def
      duplicate_arc_graph_def empty_graph_def all_node_def all_arc_def incident_arcs_def)

subsection \<open>Endpoints of the registered arcs\<close>

lemma remove_arc_private_arcs_indexed:
  assumes "arcs_indexed g"
  shows "arcs_indexed (snd (remove_arc_private g arc from to))"
proof (cases "remove_arc_private g arc from to")
  case (Pair ok g')
  show ?thesis
  proof (cases ok)
    case False
    with Pair remove_arc_private_false_unchanged [of g arc "from" to g'] assms
    show ?thesis by simp
  next
    case True
    with Pair have "remove_arc_private g arc from to = (True, g')" by simp
    from remove_arc_private_true_effect [OF this] obtain pre post where
      e: "endpoint_dic g' = AList.delete arc (endpoint_dic g)" and
      a: "stored_arc g = pre @ arc # post" and a': "stored_arc g' = pre @ post"
      by blast
    from assms a have d: "distinct (pre @ arc # post)" by (simp add: arcs_indexed_def)
    then have "distinct (stored_arc g')" and "set (stored_arc g') = set (stored_arc g) - {arc}"
      unfolding a a' by auto
    moreover from assms have "distinct (map fst (endpoint_dic g'))"
      unfolding e by (simp add: arcs_indexed_def distinct_delete)
    moreover from assms have "set (map fst (endpoint_dic g')) = set (stored_arc g) - {arc}"
      unfolding e by (simp add: arcs_indexed_def delete_keys)
    ultimately have "arcs_indexed g'" by (simp add: arcs_indexed_def)
    with Pair show ?thesis by simp
  qed
qed

lemma remove_arc_arcs_indexed:
  assumes "arcs_indexed g"
  shows "arcs_indexed (snd (remove_arc g arc))"
  using assms remove_arc_private_arcs_indexed [OF assms, of arc]
  by (simp add: remove_arc_def split: option.splits prod.splits)

lemma remove_arc_from_to_arcs_indexed:
  assumes "arcs_indexed g"
  shows "arcs_indexed (snd (remove_arc_from_to g from to))"
  using assms remove_arc_private_arcs_indexed [OF assms, of _ "from" to]
  by (simp add: remove_arc_from_to_def split: option.splits)

lemma delete_arcs_arcs_indexed:
  assumes "arcs_indexed g"
  shows "arcs_indexed (snd (delete_arcs node arcs g))"
  using assms
proof (induction arcs arbitrary: g)
  case Nil
  then show ?case by simp
next
  case (Cons arc arcs)
  show ?case
  proof (cases "map_of (endpoint_dic g) arc")
    case None
    with Cons.prems show ?thesis by simp
  next
    case (Some endpoint)
    obtain "from" to where endpoint: "endpoint = (from, to)" by (cases endpoint)
    obtain ok g' where r: "remove_arc g arc = (ok, g')" by (cases "remove_arc g arc")
    with remove_arc_arcs_indexed [OF Cons.prems, of arc] have i': "arcs_indexed g'" by simp
    show ?thesis
    proof (cases "from = node \<or> to = node")
      case True
      show ?thesis
      proof (cases ok)
        case True
        with \<open>from = node \<or> to = node\<close> Some endpoint r Cons.IH [OF i'] show ?thesis by auto
      next
        case False
        with \<open>from = node \<or> to = node\<close> Some endpoint r i' show ?thesis by auto
      qed
    next
      case False
      with Some endpoint Cons.IH [OF Cons.prems] show ?thesis by simp
    qed
  qed
qed

lemma remove_node_arcs_indexed:
  assumes "arcs_indexed g"
  shows "arcs_indexed (snd (remove_node g node))"
proof (cases "rfind_pos node (stored_node g)")
  case None
  with assms show ?thesis by (simp add: remove_node_def)
next
  case (Some it)
  obtain is_error g1 where d: "delete_arcs node (stored_arc g) g = (is_error, g1)"
    by (cases "delete_arcs node (stored_arc g) g")
  with delete_arcs_arcs_indexed [OF assms, of node "stored_arc g"]
  have i1: "arcs_indexed g1" by simp
  show ?thesis
  proof (cases is_error)
    case True
    with Some d assms show ?thesis by (simp add: remove_node_def Let_def arcs_indexed_def)
  next
    case False
    with Some d i1 show ?thesis by (simp add: remove_node_def Let_def arcs_indexed_def)
  qed
qed

lemma add_arc_arcs_indexed:
  assumes "arcs_indexed g" and "arc \<notin> set (all_arc g)"
  shows "arcs_indexed (snd (add_arc no_fault g arc from to))"
  using assms
  by (auto simp: add_arc_no_fault arcs_indexed_def all_arc_def distinct_update
      dom_update [simplified])

lemma exec_arcs_indexed:
  assumes "arcs_indexed g" and "fresh_nonnull g c"
  shows "arcs_indexed (snd (exec c g))"
proof (cases c)
  case (AddNode node)
  with assms show ?thesis by (simp add: add_node_no_fault arcs_indexed_def)
next
  case (AddArc arc "from" to)
  with assms(2) have "arc \<notin> set (all_arc g)" by simp
  from add_arc_arcs_indexed [OF assms(1) this] show ?thesis
    unfolding AddArc snd_exec_AddArc .
next
  case (RemoveNode node)
  with remove_node_arcs_indexed [OF assms(1)] show ?thesis by simp
next
  case (RemoveArc arc)
  with remove_arc_arcs_indexed [OF assms(1)] show ?thesis by simp
next
  case (RemoveArcFromTo "from" to)
  with remove_arc_from_to_arcs_indexed [OF assms(1)] show ?thesis by simp
qed

lemma set_update_subset: "set (AList.update k v al) \<subseteq> insert (k, v) (set al)"
  by (induction al) auto

lemma set_delete_subset: "set (AList.delete k al) \<subseteq> set al"
  by (auto simp: AList.delete_eq)

lemma remove_arc_private_endpoint_subset:
  "set (endpoint_dic (snd (remove_arc_private g arc from to))) \<subseteq> set (endpoint_dic g)"
  using set_delete_subset [of arc "endpoint_dic g"]
  by (simp add: remove_arc_private_def erase_stored_arc_def erase_endpoint_def
      erase_adjacency_entry_def split: option.splits)

lemma remove_arc_endpoint_subset:
  "set (endpoint_dic (snd (remove_arc g arc))) \<subseteq> set (endpoint_dic g)"
  using remove_arc_private_endpoint_subset [of g arc]
  by (simp add: remove_arc_def split: option.splits prod.splits)

lemma remove_arc_from_to_endpoint_subset:
  "set (endpoint_dic (snd (remove_arc_from_to g from to))) \<subseteq> set (endpoint_dic g)"
  using remove_arc_private_endpoint_subset [of g _ "from" to]
  by (simp add: remove_arc_from_to_def split: option.splits)

lemma delete_arcs_endpoint_subset:
  "set (endpoint_dic (snd (delete_arcs node arcs g))) \<subseteq> set (endpoint_dic g)"
proof (induction arcs arbitrary: g)
  case Nil
  show ?case by simp
next
  case (Cons arc arcs)
  show ?case
  proof (cases "map_of (endpoint_dic g) arc")
    case None
    then show ?thesis by simp
  next
    case (Some endpoint)
    obtain "from" to where endpoint: "endpoint = (from, to)" by (cases endpoint)
    obtain ok g' where r: "remove_arc g arc = (ok, g')" by (cases "remove_arc g arc")
    with remove_arc_endpoint_subset [of g arc]
    have s: "set (endpoint_dic g') \<subseteq> set (endpoint_dic g)" by simp
    show ?thesis
    proof (cases "from = node \<or> to = node")
      case True
      show ?thesis
      proof (cases ok)
        case True
        with \<open>from = node \<or> to = node\<close> Some endpoint r Cons.IH [of g'] s show ?thesis by auto
      next
        case False
        with \<open>from = node \<or> to = node\<close> Some endpoint r s show ?thesis by auto
      qed
    next
      case False
      with Some endpoint Cons.IH [of g] show ?thesis by simp
    qed
  qed
qed

lemma remove_node_endpoint_subset:
  "set (endpoint_dic (snd (remove_node g node))) \<subseteq> set (endpoint_dic g)"
proof (cases "rfind_pos node (stored_node g)")
  case None
  then show ?thesis by (simp add: remove_node_def)
next
  case (Some it)
  obtain is_error g1 where d: "delete_arcs node (stored_arc g) g = (is_error, g1)"
    by (cases "delete_arcs node (stored_arc g) g")
  with delete_arcs_endpoint_subset [of node "stored_arc g" g]
  have "set (endpoint_dic g1) \<subseteq> set (endpoint_dic g)" by simp
  with Some d show ?thesis
    by (cases is_error) (simp_all add: remove_node_def Let_def)
qed

lemma exec_endpoints_nonnull:
  assumes "endpoints_nonnull g" and "fresh_nonnull g c"
  shows "endpoints_nonnull (snd (exec c g))"
proof (cases c)
  case (AddNode node)
  with assms show ?thesis by (simp add: add_node_no_fault endpoints_nonnull_def)
next
  case (AddArc arc "from" to)
  with assms(2) have nn: "from \<noteq> NodeNull" "to \<noteq> NodeNull" by simp_all
  have "set (endpoint_dic (snd (add_arc no_fault g arc from to))) \<subseteq>
      insert (arc, from, to) (set (endpoint_dic g))"
    using set_update_subset [of arc "(from, to)" "endpoint_dic g"]
    by (simp add: add_arc_no_fault)
  with assms(1) nn have "endpoints_nonnull (snd (add_arc no_fault g arc from to))"
    unfolding endpoints_nonnull_def by fastforce
  then show ?thesis unfolding AddArc snd_exec_AddArc .
next
  case (RemoveNode node)
  with assms(1) remove_node_endpoint_subset [of g node] show ?thesis
    unfolding endpoints_nonnull_def by auto
next
  case (RemoveArc arc)
  with assms(1) remove_arc_endpoint_subset [of g arc] show ?thesis
    unfolding endpoints_nonnull_def by auto
next
  case (RemoveArcFromTo "from" to)
  with assms(1) remove_arc_from_to_endpoint_subset [of g "from" to] show ?thesis
    unfolding endpoints_nonnull_def by auto
qed

lemma fresh_nonnull_run:
  assumes "arcs_indexed g" and "endpoints_nonnull g" and "follows fresh_nonnull cs g"
    and "run cs g = Some g'"
  shows "arcs_indexed g' \<and> endpoints_nonnull g'"
  using assms
proof (induction cs arbitrary: g)
  case Nil
  then show ?case by simp
next
  case (Cons c cs)
  from Cons.prems(3) have c: "fresh_nonnull g c" and cs: "follows fresh_nonnull cs (snd (exec c g))"
    by simp_all
  from run_Cons_Some [OF Cons.prems(4)] have "run cs (snd (exec c g)) = Some g'" by simp
  from Cons.IH [OF exec_arcs_indexed [OF Cons.prems(1) c]
      exec_endpoints_nonnull [OF Cons.prems(2) c] cs this]
  show ?case .
qed

lemma registered_arc_endpoints:
  assumes ix: "arcs_indexed g" and nn: "endpoints_nonnull g" and a: "arc \<in> set (all_arc g)"
  shows "source g arc \<noteq> NodeNull \<and> target g arc \<noteq> NodeNull \<and>
         is_connect g (source g arc) arc = 1 \<and>
         is_connect g (target g arc) arc = (if target g arc = source g arc then 1 else - 1)"
proof -
  from ix a have "arc \<in> fst ` set (endpoint_dic g)" by (simp add: arcs_indexed_def all_arc_def)
  then have "arc \<in> dom (map_of (endpoint_dic g))" by (simp add: dom_map_of_conv_image_fst)
  then obtain f t where e: "map_of (endpoint_dic g) arc = Some (f, t)" by fastforce
  then have "(arc, f, t) \<in> set (endpoint_dic g)" by (rule map_of_SomeD)
  with nn have "f \<noteq> NodeNull" "t \<noteq> NodeNull" unfolding endpoints_nonnull_def by auto
  with e show ?thesis by (simp add: source_def target_def is_connect_def)
qed

text \<open>
  C6, as the code has it. After every sequence of successful calls in which
  \<^verbatim>\<open>add_arc\<close> is never given an arc that is in \<^verbatim>\<open>all_arc()\<close> nor a null node, every
  arc \<open>a\<close> of \<^verbatim>\<open>all_arc()\<close> has a non-null \<^verbatim>\<open>source(a)\<close> and \<^verbatim>\<open>target(a)\<close>;
  \<^verbatim>\<open>is_connect(source(a), a)\<close> is 1, the source; \<^verbatim>\<open>is_connect(target(a), a)\<close> is -1,
  the target, unless the arc is a loop at one node, where it is 1.
\<close>

theorem fresh_arcs_endpoints_classified:
  assumes "follows fresh_nonnull cs empty_graph" and "run cs empty_graph = Some g"
  shows "\<forall>arc \<in> set (all_arc g).
           source g arc \<noteq> NodeNull \<and> target g arc \<noteq> NodeNull \<and>
           is_connect g (source g arc) arc = 1 \<and>
           is_connect g (target g arc) arc = (if target g arc = source g arc then 1 else - 1)"
proof -
  have "arcs_indexed empty_graph" and "endpoints_nonnull empty_graph"
    by (simp_all add: arcs_indexed_def endpoints_nonnull_def empty_graph_def)
  from fresh_nonnull_run [OF this assms] registered_arc_endpoints show ?thesis by blast
qed

theorem fresh_arcs_endpoints_classified_witness:
  "follows fresh_nonnull [AddNode (NodePtr 1), AddArc (ArcPtr 1) (NodePtr 1) (NodePtr 2)]
     empty_graph \<and>
   run [AddNode (NodePtr 1), AddArc (ArcPtr 1) (NodePtr 1) (NodePtr 2)] empty_graph =
     Some one_arc_graph \<and>
   ArcPtr 1 \<in> set (all_arc one_arc_graph) \<and>
   source one_arc_graph (ArcPtr 1) \<noteq> NodeNull \<and> target one_arc_graph (ArcPtr 1) \<noteq> NodeNull \<and>
   is_connect one_arc_graph (source one_arc_graph (ArcPtr 1)) (ArcPtr 1) = 1 \<and>
   is_connect one_arc_graph (target one_arc_graph (ArcPtr 1)) (ArcPtr 1) =
     (if target one_arc_graph (ArcPtr 1) = source one_arc_graph (ArcPtr 1) then 1 else - 1)"
proof -
  have d: "follows fresh_nonnull [AddNode (NodePtr 1), AddArc (ArcPtr 1) (NodePtr 1) (NodePtr 2)]
      empty_graph"
    by (simp add: add_node_def no_fault_def Let_def empty_graph_def all_arc_def)
  have a: "ArcPtr 1 \<in> set (all_arc one_arc_graph)"
    by (simp add: all_arc_def one_arc_graph_def)
  from fresh_arcs_endpoints_classified [OF d run_one_arc_graph] a d run_one_arc_graph
  show ?thesis by blast
qed

text \<open>
  C6 as stated fails: for an arc from node 1 to node 1, \<^verbatim>\<open>is_connect\<close> compares
  with the source first and classifies \<^verbatim>\<open>target(a)\<close> as the source.
\<close>

theorem self_loop_target_classified_as_source:
  "run [AddNode (NodePtr 1), AddArc (ArcPtr 1) (NodePtr 1) (NodePtr 1)] empty_graph =
     Some self_loop_graph \<and>
   ArcPtr 1 \<in> set (all_arc self_loop_graph) \<and>
   target self_loop_graph (ArcPtr 1) = NodePtr 1 \<and>
   is_connect self_loop_graph (target self_loop_graph (ArcPtr 1)) (ArcPtr 1) = 1"
  by (simp add: add_node_def add_arc_def bucket_push_back_def no_fault_def Let_def
      self_loop_graph_def empty_graph_def all_arc_def target_def is_connect_def)

subsection \<open>Registrations that return\<close>

text \<open>
  A registration that returns has met no failing allocation: it is the call of
  \<open>exec\<close>.
\<close>

lemma add_node_success_no_fault:
  "add_node oom g node = (Inr r, g') \<Longrightarrow> add_node no_fault g node = (Inr r, g')"
  by (auto simp: add_node_def no_fault_def Let_def split: if_splits)

lemma bucket_push_back_success_no_fault:
  "bucket_push_back oom adj from arc_pair = (Inr u, adj') \<Longrightarrow>
     bucket_push_back no_fault adj from arc_pair = (Inr u, adj')"
  by (auto simp: bucket_push_back_def no_fault_def split: option.splits if_splits)

lemma add_arc_success_no_fault:
  assumes "add_arc oom g arc from to = (Inr r, g')"
  shows "add_arc no_fault g arc from to = (Inr r, g')"
proof (cases "bucket_push_back oom (adjacency g) from (to, arc)")
  case (Pair res adj)
  show ?thesis
  proof (cases res)
    case (Inl e)
    with assms Pair show ?thesis by (auto simp: add_arc_def Let_def split: if_splits)
  next
    case (Inr u)
    with Pair bucket_push_back_success_no_fault
    have "bucket_push_back no_fault (adjacency g) from (to, arc) = (Inr u, adj)" by blast
    with assms Pair Inr show ?thesis
      by (auto simp: add_arc_def Let_def no_fault_def split: if_splits)
  qed
qed

subsection \<open>Two scenarios\<close>

lemma linear_chain_scenario:
  "run [AddNode (NodePtr 1), AddNode (NodePtr 2), AddNode (NodePtr 3),
        AddArc (ArcPtr 1) (NodePtr 1) (NodePtr 2), AddArc (ArcPtr 2) (NodePtr 2) (NodePtr 3)]
     empty_graph = Some chain_graph"
  "child_nodes chain_graph (NodePtr 1) = Inr [NodePtr 2]"
  "parent_nodes chain_graph (NodePtr 3) = [NodePtr 2]"
  "is_adjacent chain_graph (NodePtr 1) (NodePtr 3) = ArcNull"
  "is_adjacent chain_graph (NodePtr 1) (NodePtr 2) = ArcPtr 1"
  "remove_node chain_graph (NodePtr 2) =
     (True, \<lparr>stored_node = [NodePtr 1, NodePtr 3], stored_arc = [], endpoint_dic = [],
             adjacency = [(NodePtr 1, []), (NodePtr 3, [])]\<rparr>)"
  by (simp_all add: add_node_def add_arc_def bucket_push_back_def no_fault_def Let_def
      remove_node_def remove_arc_def remove_arc_private_def rfind_pos_def erase_at_def
      erase_stored_arc_def erase_endpoint_def erase_adjacency_entry_def
      chain_graph_def empty_graph_def child_nodes_def parent_nodes_def is_adjacent_def)

lemma remove_nonexistent_scenario:
  "remove_node empty_graph node = (False, empty_graph)"
  "remove_arc empty_graph arc = (False, empty_graph)"
  by (simp_all add: remove_node_def remove_arc_def rfind_pos_def empty_graph_def)

end
